theory Spec2Isabelle
  imports Main "HOL-Library.Word"
begin

section \<open>The interrupt-driven 4x4 keypad scanner of \<^verbatim>\<open>matrix_robust.c\<close>\<close>

text \<open>
  A shallow embedding of \<^verbatim>\<open>src/matrix_robust.c\<close> (with the constants and structs of
  \<^verbatim>\<open>src/matrix_robust.h\<close>). The file-level statics of the C file are the fields of
  one record, every function takes the record and returns it updated.

  What is outside the C file is made explicit:
  \<^item> the values read from the hardware during one scan step (the two readings of the
    microsecond timer, the millisecond clock, the level of each column) are the
    fields of \<open>scan_input\<close>;
  \<^item> a callback is a function pointer that is either \<^verbatim>\<open>NULL\<close> or registered; the
    model keeps the flag and the list of arguments the callback was called with, and
    assumes the callback itself does not call back into the driver;
  \<^item> the repeating timer and the falling-edge interrupt enable of each pin are
    fields of the record (\<open>timer_armed\<close>, \<open>irq_fall_enabled\<close>);
  \<^item> the row drive (\<^verbatim>\<open>gpio_put\<close>), the settle delay, \<^verbatim>\<open>printf\<close>, the mutexes and
    the static \<^verbatim>\<open>last_scan_start\<close> (never read) have no effect on the state the driver
    reads and are left out;
  \<^item> an unsigned division by zero is undefined in C: the two places that can divide
    by zero return the error \<open>DivisionByZero\<close>.
\<close>

subsection \<open>Constants and structs (\<^verbatim>\<open>matrix_robust.h\<close>)\<close>

type_synonym uint8_t = "8 word"
type_synonym uint32_t = "32 word"

abbreviation (input) MATRIX_ROWS :: nat where "MATRIX_ROWS \<equiv> 4"
abbreviation (input) MATRIX_COLS :: nat where "MATRIX_COLS \<equiv> 4"

abbreviation (input) KEY_IDLE :: uint8_t where "KEY_IDLE \<equiv> 0"
abbreviation (input) KEY_PRESSED :: uint8_t where "KEY_PRESSED \<equiv> 1"
abbreviation (input) KEY_HELD :: uint8_t where "KEY_HELD \<equiv> 2"
abbreviation (input) KEY_RELEASED :: uint8_t where "KEY_RELEASED \<equiv> 3"

abbreviation (input) ERROR_NONE :: uint8_t where "ERROR_NONE \<equiv> 0"
abbreviation (input) ERROR_STUCK_KEY :: uint8_t where "ERROR_STUCK_KEY \<equiv> 1"
abbreviation (input) ERROR_GHOST_KEY :: uint8_t where "ERROR_GHOST_KEY \<equiv> 2"
abbreviation (input) ERROR_SCAN_TIMEOUT :: uint8_t where "ERROR_SCAN_TIMEOUT \<equiv> 3"

abbreviation (input) DEBOUNCE_PRESS_MS :: uint32_t where "DEBOUNCE_PRESS_MS \<equiv> 20"
abbreviation (input) DEBOUNCE_RELEASE_MS :: uint32_t where "DEBOUNCE_RELEASE_MS \<equiv> 50"
abbreviation (input) STUCK_KEY_TIMEOUT_MS :: uint32_t where "STUCK_KEY_TIMEOUT_MS \<equiv> 5000"
abbreviation (input) SCAN_INTERVAL_US :: uint32_t where "SCAN_INTERVAL_US \<equiv> 1000"

abbreviation (input) EVENT_QUEUE_SIZE :: nat where "EVENT_QUEUE_SIZE \<equiv> 32"
abbreviation (input) ERROR_QUEUE_SIZE :: nat where "ERROR_QUEUE_SIZE \<equiv> 8"

text \<open>
  The fields of the two event structs carry a prefix, since both structs of the C
  header have fields \<^verbatim>\<open>row\<close>, \<^verbatim>\<open>col\<close> and \<^verbatim>\<open>timestamp\<close>.
\<close>

record KeyEvent =
  ev_key :: uint8_t
  ev_state :: uint8_t
  ev_row :: uint8_t
  ev_col :: uint8_t
  ev_timestamp :: uint32_t

record ErrorEvent =
  err_code :: uint8_t
  err_row :: uint8_t
  err_col :: uint8_t
  err_timestamp :: uint32_t

record ScanStatistics =
  total_scans :: uint32_t
  total_events :: uint32_t
  total_errors :: uint32_t
  queue_overflows :: uint32_t
  max_scan_time_us :: uint32_t
  avg_scan_time_us :: uint32_t

datatype error = DivisionByZero

subsection \<open>The statics of \<^verbatim>\<open>matrix_robust.c\<close>\<close>

record engine =
  row_gpios :: "uint8_t list"
  col_gpios :: "uint8_t list"
  keymap :: "uint8_t list list"
  current_row :: uint8_t
  key_state :: "uint8_t list list"
  key_timestamp :: "uint32_t list list"
  debounce_time_press :: uint32_t
  debounce_time_release :: uint32_t
  event_queue :: "KeyEvent list"
  event_queue_head :: uint32_t
  event_queue_tail :: uint32_t
  error_queue :: "ErrorEvent list"
  error_queue_head :: uint32_t
  error_queue_tail :: uint32_t
  key_callback :: bool
  error_callback :: bool
  scanning_active :: bool
  scan_interval :: uint32_t
  ghost_detection_enabled :: bool
  stuck_detection_enabled :: bool
  stuck_key_timeout :: uint32_t
  stats :: ScanStatistics
  pressed_keys :: "uint8_t list list"
  key_callback_calls :: "KeyEvent list"
  error_callback_calls :: "ErrorEvent list"
  timer_armed :: bool
  irq_fall_enabled :: "uint8_t \<Rightarrow> bool"

text \<open>Reading and writing \<^verbatim>\<open>a[r][c]\<close>.\<close>

definition get2 :: "'a list list \<Rightarrow> nat \<Rightarrow> nat \<Rightarrow> 'a" where
  "get2 a r c = a ! r ! c"

definition set2 :: "'a list list \<Rightarrow> nat \<Rightarrow> nat \<Rightarrow> 'a \<Rightarrow> 'a list list" where
  "set2 a r c v = a[r := (a ! r)[c := v]]"

definition DEFAULT_KEYMAP :: "uint8_t list list" where
  "DEFAULT_KEYMAP =
     [[0x1, 0x2, 0x3, 0xA],
      [0x4, 0x5, 0x6, 0xB],
      [0x7, 0x8, 0x9, 0xC],
      [0x0, 0xF, 0xE, 0xD]]"

definition zero_KeyEvent :: KeyEvent where
  "zero_KeyEvent = \<lparr>ev_key = 0, ev_state = 0, ev_row = 0, ev_col = 0, ev_timestamp = 0\<rparr>"

definition zero_ErrorEvent :: ErrorEvent where
  "zero_ErrorEvent = \<lparr>err_code = 0, err_row = 0, err_col = 0, err_timestamp = 0\<rparr>"

definition zero_stats :: ScanStatistics where
  "zero_stats = \<lparr>total_scans = 0, total_events = 0, total_errors = 0,
     queue_overflows = 0, max_scan_time_us = 0, avg_scan_time_us = 0\<rparr>"

text \<open>
  The statics as the C initialisers leave them at program start (lines 20-63): arrays
  without an initialiser are zero, no interrupt is enabled and no timer runs.
\<close>

definition power_on :: engine where
  "power_on = \<lparr>
     row_gpios = replicate MATRIX_ROWS 0,
     col_gpios = replicate MATRIX_COLS 0,
     keymap = replicate MATRIX_ROWS (replicate MATRIX_COLS 0),
     current_row = 0,
     key_state = replicate MATRIX_ROWS (replicate MATRIX_COLS 0),
     key_timestamp = replicate MATRIX_ROWS (replicate MATRIX_COLS 0),
     debounce_time_press = DEBOUNCE_PRESS_MS,
     debounce_time_release = DEBOUNCE_RELEASE_MS,
     event_queue = replicate EVENT_QUEUE_SIZE zero_KeyEvent,
     event_queue_head = 0,
     event_queue_tail = 0,
     error_queue = replicate ERROR_QUEUE_SIZE zero_ErrorEvent,
     error_queue_head = 0,
     error_queue_tail = 0,
     key_callback = False,
     error_callback = False,
     scanning_active = False,
     scan_interval = SCAN_INTERVAL_US,
     ghost_detection_enabled = True,
     stuck_detection_enabled = True,
     stuck_key_timeout = STUCK_KEY_TIMEOUT_MS,
     stats = zero_stats,
     pressed_keys = replicate MATRIX_ROWS (replicate MATRIX_COLS 0),
     key_callback_calls = [],
     error_callback_calls = [],
     timer_armed = False,
     irq_fall_enabled = (\<lambda>_. False)\<rparr>"

subsection \<open>Initialisation, start and stop (lines 73-139)\<close>

text \<open>
  \<^verbatim>\<open>matrix_robust_init\<close> copies the pins and the default keymap and clears the three
  state arrays; it leaves the queues, the statistics and the row cursor as they are.
  Its \<^verbatim>\<open>printf\<close> divides by \<^verbatim>\<open>scan_interval_us\<close>.
\<close>

definition matrix_robust_init ::
  "uint8_t list \<Rightarrow> uint8_t list \<Rightarrow> uint32_t \<Rightarrow> engine \<Rightarrow> error + engine" where
  "matrix_robust_init row_pins col_pins scan_interval_us s =
     (let s1 = s\<lparr>row_gpios := take MATRIX_ROWS row_pins,
                 col_gpios := take MATRIX_COLS col_pins,
                 keymap := DEFAULT_KEYMAP,
                 key_state := replicate MATRIX_ROWS (replicate MATRIX_COLS KEY_IDLE),
                 key_timestamp := replicate MATRIX_ROWS (replicate MATRIX_COLS 0),
                 pressed_keys := replicate MATRIX_ROWS (replicate MATRIX_COLS 0),
                 scan_interval := scan_interval_us\<rparr>
      in if scan_interval_us = 0 then Inl DivisionByZero else Inr s1)"

definition matrix_robust_set_keymap :: "uint8_t list list \<Rightarrow> engine \<Rightarrow> engine" where
  "matrix_robust_set_keymap custom_keymap s = s\<lparr>keymap := custom_keymap\<rparr>"

definition matrix_robust_start :: "engine \<Rightarrow> engine" where
  "matrix_robust_start s =
     (if \<not> scanning_active s then s\<lparr>timer_armed := True, scanning_active := True\<rparr> else s)"

definition matrix_robust_stop :: "engine \<Rightarrow> engine" where
  "matrix_robust_stop s =
     (if scanning_active s then s\<lparr>timer_armed := False, scanning_active := False\<rparr> else s)"

definition matrix_robust_set_key_callback :: "bool \<Rightarrow> engine \<Rightarrow> engine" where
  "matrix_robust_set_key_callback callback s = s\<lparr>key_callback := callback\<rparr>"

definition matrix_robust_set_error_callback :: "bool \<Rightarrow> engine \<Rightarrow> engine" where
  "matrix_robust_set_error_callback callback s = s\<lparr>error_callback := callback\<rparr>"

subsection \<open>The two ring buffers (lines 267-360)\<close>

definition enqueue_event :: "KeyEvent \<Rightarrow> engine \<Rightarrow> bool \<times> engine" where
  "enqueue_event event s =
     (let next_head = (event_queue_head s + 1) mod of_nat EVENT_QUEUE_SIZE
      in if next_head = event_queue_tail s then
           (False, s\<lparr>stats := (stats s)\<lparr>queue_overflows := queue_overflows (stats s) + 1\<rparr>\<rparr>)
         else
           (True, s\<lparr>event_queue := (event_queue s)[unat (event_queue_head s) := event],
                    event_queue_head := next_head\<rparr>))"

definition enqueue_error :: "ErrorEvent \<Rightarrow> engine \<Rightarrow> bool \<times> engine" where
  "enqueue_error err s =
     (let next_head = (error_queue_head s + 1) mod of_nat ERROR_QUEUE_SIZE
      in if next_head = error_queue_tail s then (False, s)
         else
           (let s1 = s\<lparr>error_queue := (error_queue s)[unat (error_queue_head s) := err],
                       error_queue_head := next_head,
                       stats := (stats s)\<lparr>total_errors := total_errors (stats s) + 1\<rparr>\<rparr>
            in (True, if error_callback s1
                      then s1\<lparr>error_callback_calls := error_callback_calls s1 @ [err]\<rparr>
                      else s1)))"

definition matrix_robust_get_event :: "engine \<Rightarrow> KeyEvent option \<times> engine" where
  "matrix_robust_get_event s =
     (if event_queue_head s = event_queue_tail s then (None, s)
      else (Some (event_queue s ! unat (event_queue_tail s)),
            s\<lparr>event_queue_tail := (event_queue_tail s + 1) mod of_nat EVENT_QUEUE_SIZE\<rparr>))"

definition matrix_robust_get_error :: "engine \<Rightarrow> ErrorEvent option \<times> engine" where
  "matrix_robust_get_error s =
     (if error_queue_head s = error_queue_tail s then (None, s)
      else (Some (error_queue s ! unat (error_queue_tail s)),
            s\<lparr>error_queue_tail := (error_queue_tail s + 1) mod of_nat ERROR_QUEUE_SIZE\<rparr>))"

definition matrix_robust_any_key_pressed :: "engine \<Rightarrow> bool" where
  "matrix_robust_any_key_pressed s =
     list_ex (\<lambda>row. list_ex (\<lambda>col. key_state s ! row ! col \<noteq> KEY_IDLE) [0..<MATRIX_COLS])
       [0..<MATRIX_ROWS]"

definition matrix_robust_get_event_count :: "engine \<Rightarrow> uint32_t" where
  "matrix_robust_get_event_count s =
     (if event_queue_head s \<ge> event_queue_tail s
      then event_queue_head s - event_queue_tail s
      else of_nat EVENT_QUEUE_SIZE - event_queue_tail s + event_queue_head s)"

definition matrix_robust_clear_events :: "engine \<Rightarrow> engine" where
  "matrix_robust_clear_events s = s\<lparr>event_queue_head := 0, event_queue_tail := 0\<rparr>"

definition matrix_robust_set_ghost_detection :: "bool \<Rightarrow> engine \<Rightarrow> engine" where
  "matrix_robust_set_ghost_detection enable s = s\<lparr>ghost_detection_enabled := enable\<rparr>"

definition matrix_robust_set_stuck_detection :: "bool \<Rightarrow> uint32_t \<Rightarrow> engine \<Rightarrow> engine" where
  "matrix_robust_set_stuck_detection enable timeout_ms s =
     s\<lparr>stuck_detection_enabled := enable, stuck_key_timeout := timeout_ms\<rparr>"

subsection \<open>The anomaly detectors (lines 371-395)\<close>

definition keys_in_row :: "engine \<Rightarrow> uint8_t \<Rightarrow> uint8_t" where
  "keys_in_row s row =
     fold (\<lambda>c n. if get2 (pressed_keys s) (unat row) c \<noteq> 0 then n + 1 else n)
       [0..<MATRIX_COLS] 0"

definition keys_in_col :: "engine \<Rightarrow> uint8_t \<Rightarrow> uint8_t" where
  "keys_in_col s col =
     fold (\<lambda>r n. if get2 (pressed_keys s) r (unat col) \<noteq> 0 then n + 1 else n)
       [0..<MATRIX_ROWS] 0"

definition detect_ghost_key :: "engine \<Rightarrow> uint8_t \<Rightarrow> uint8_t \<Rightarrow> bool" where
  "detect_ghost_key s row col = (keys_in_row s row \<ge> 2 \<and> keys_in_col s col \<ge> 2)"

definition detect_stuck_key :: "engine \<Rightarrow> uint8_t \<Rightarrow> uint8_t \<Rightarrow> uint32_t \<Rightarrow> bool" where
  "detect_stuck_key s row col now =
     (let press_time = get2 (key_timestamp s) (unat row) (unat col)
      in now - press_time > stuck_key_timeout s)"

subsection \<open>The scan step (lines 141-265)\<close>

record scan_input =
  scan_start_us :: uint32_t
  now_ms :: uint32_t
  gpio_get :: "nat \<Rightarrow> bool"
  scan_end_us :: uint32_t

text \<open>
  \<open>gpio_get inp col\<close> is the level \<^verbatim>\<open>gpio_get(col_gpios[col])\<close> returns in this scan
  step (\<open>False\<close> is low, a closed contact). \<open>scan_start_us\<close> and \<open>scan_end_us\<close> are the
  two readings of \<^verbatim>\<open>time_us_32()\<close>, \<open>now_ms\<close> the reading of the millisecond clock.

  Lines 198-202 and 240-244, the delivery of a key event: the callback when one is
  registered, the queue otherwise.
\<close>

definition deliver_key_event :: "KeyEvent \<Rightarrow> engine \<Rightarrow> engine" where
  "deliver_key_event event s =
     (if key_callback s then s\<lparr>key_callback_calls := key_callback_calls s @ [event]\<rparr>
      else snd (enqueue_event event s))"

text \<open>
  Lines 171-204, the body of the branch commented \<^verbatim>\<open>Debounced press confirmed\<close>: the
  ghost check, whose \<^verbatim>\<open>continue\<close> ends the body for this column, and otherwise the
  press event.
\<close>

definition confirm_press :: "uint32_t \<Rightarrow> nat \<Rightarrow> engine \<Rightarrow> engine" where
  "confirm_press now col s =
     (let r = unat (current_row s)
      in
      if ghost_detection_enabled s \<and> detect_ghost_key s (current_row s) (of_nat col) then
        snd (enqueue_error
          \<lparr>err_code = ERROR_GHOST_KEY, err_row = current_row s,
           err_col = of_nat col, err_timestamp = now\<rparr> s)
      else
        (let event = \<lparr>ev_key = get2 (keymap s) r col, ev_state = KEY_PRESSED,
                      ev_row = current_row s, ev_col = of_nat col,
                      ev_timestamp = now\<rparr>;
             s1 = s\<lparr>key_state := set2 (key_state s) r col KEY_PRESSED,
                    pressed_keys := set2 (pressed_keys s) r col 1\<rparr>;
             s2 = deliver_key_event event s1
         in s2\<lparr>stats := (stats s2)\<lparr>total_events := total_events (stats s2) + 1\<rparr>\<rparr>))"

text \<open>
  The body of the column loop (lines 160-248), with the branches in the order and
  under the conditions of the source.
\<close>

definition scan_col :: "uint32_t \<Rightarrow> (nat \<Rightarrow> bool) \<Rightarrow> nat \<Rightarrow> engine \<Rightarrow> engine" where
  "scan_col now level col s =
     (let r = unat (current_row s);
          pressed = (\<not> level col);
          current_state = get2 (key_state s) r col;
          last_change = get2 (key_timestamp s) r col
      in
      if pressed then
        (if current_state = KEY_IDLE then
           s\<lparr>key_timestamp := set2 (key_timestamp s) r col now,
             key_state := set2 (key_state s) r col KEY_IDLE\<rparr>
         else if current_state = KEY_IDLE \<and> now - last_change \<ge> debounce_time_press s then
           confirm_press now col s
         else if current_state = KEY_PRESSED then
           (let s1 = s\<lparr>key_state := set2 (key_state s) r col KEY_HELD\<rparr>
            in if stuck_detection_enabled s1
                  \<and> detect_stuck_key s1 (current_row s1) (of_nat col) now then
                 snd (enqueue_error
                   \<lparr>err_code = ERROR_STUCK_KEY, err_row = current_row s1,
                    err_col = of_nat col, err_timestamp = now\<rparr> s1)
               else s1)
         else s)
      else
        (if current_state = KEY_PRESSED \<or> current_state = KEY_HELD then
           s\<lparr>key_timestamp := set2 (key_timestamp s) r col now\<rparr>
         else if (current_state = KEY_PRESSED \<or> current_state = KEY_HELD)
                 \<and> now - last_change \<ge> debounce_time_release s then
           (let event = \<lparr>ev_key = get2 (keymap s) r col, ev_state = KEY_RELEASED,
                         ev_row = current_row s, ev_col = of_nat col,
                         ev_timestamp = now\<rparr>;
                s1 = s\<lparr>key_state := set2 (key_state s) r col KEY_IDLE,
                       pressed_keys := set2 (pressed_keys s) r col 0\<rparr>;
                s2 = deliver_key_event event s1
            in s2\<lparr>stats := (stats s2)\<lparr>total_events := total_events (stats s2) + 1\<rparr>\<rparr>)
         else s))"

text \<open>
  Lines 257-262: the maximum and the running average of the scan duration. The average
  divides by \<^verbatim>\<open>stats.total_scans\<close>, which is zero when the increment of line 143
  wrapped around.
\<close>

definition update_scan_time :: "uint32_t \<Rightarrow> engine \<Rightarrow> error + engine" where
  "update_scan_time scan_time s =
     (let s1 = (if scan_time > max_scan_time_us (stats s)
                then s\<lparr>stats := (stats s)\<lparr>max_scan_time_us := scan_time\<rparr>\<rparr> else s)
      in if total_scans (stats s1) = 0 then Inl DivisionByZero
         else Inr (s1\<lparr>stats := (stats s1)\<lparr>avg_scan_time_us :=
                (avg_scan_time_us (stats s1) * (total_scans (stats s1) - 1) + scan_time)
                  div total_scans (stats s1)\<rparr>\<rparr>))"

text \<open>
  One invocation of the timer callback: count the scan (line 143), run the column loop
  on the current row (lines 159-249), advance the row cursor (line 255, computed in
  \<^verbatim>\<open>int\<close>, as C promotes the \<^verbatim>\<open>uint8_t\<close>), update the duration statistics.
\<close>

definition count_scan :: "engine \<Rightarrow> engine" where
  "count_scan s = s\<lparr>stats := (stats s)\<lparr>total_scans := total_scans (stats s) + 1\<rparr>\<rparr>"

definition scan_row :: "scan_input \<Rightarrow> engine \<Rightarrow> engine" where
  "scan_row inp s = fold (scan_col (now_ms inp) (gpio_get inp)) [0..<MATRIX_COLS] s"

definition next_row :: "engine \<Rightarrow> engine" where
  "next_row s = s\<lparr>current_row := of_nat ((unat (current_row s) + 1) mod MATRIX_ROWS)\<rparr>"

definition scan_timer_callback :: "scan_input \<Rightarrow> engine \<Rightarrow> error + engine" where
  "scan_timer_callback inp s =
     update_scan_time (scan_end_us inp - scan_start_us inp)
       (next_row (scan_row inp (count_scan s)))"

text \<open>A run of scan steps, one per timer tick, stopping at the first error.\<close>

fun run_scans :: "scan_input list \<Rightarrow> engine \<Rightarrow> error + engine" where
  "run_scans [] s = Inr s"
| "run_scans (inp # inps) s =
     (case scan_timer_callback inp s of Inl e \<Rightarrow> Inl e | Inr s' \<Rightarrow> run_scans inps s')"

subsection \<open>Wake interrupt, statistics and low power (lines 397-436)\<close>

definition matrix_robust_enable_wake_interrupt :: "engine \<Rightarrow> engine" where
  "matrix_robust_enable_wake_interrupt s =
     fold (\<lambda>i s'. s'\<lparr>irq_fall_enabled := (irq_fall_enabled s')(col_gpios s' ! i := True)\<rparr>)
       [0..<MATRIX_COLS] s"

definition matrix_robust_disable_wake_interrupt :: "engine \<Rightarrow> engine" where
  "matrix_robust_disable_wake_interrupt s =
     fold (\<lambda>i s'. s'\<lparr>irq_fall_enabled := (irq_fall_enabled s')(col_gpios s' ! i := False)\<rparr>)
       [0..<MATRIX_COLS] s"

definition gpio_interrupt_callback :: "uint8_t \<Rightarrow> uint32_t \<Rightarrow> engine \<Rightarrow> engine" where
  "gpio_interrupt_callback gpio events s =
     (if \<not> scanning_active s then matrix_robust_start s else s)"

definition matrix_robust_get_statistics :: "engine \<Rightarrow> ScanStatistics" where
  "matrix_robust_get_statistics s = stats s"

definition matrix_robust_reset_statistics :: "engine \<Rightarrow> engine" where
  "matrix_robust_reset_statistics s = s\<lparr>stats := zero_stats\<rparr>"

definition matrix_robust_enter_low_power :: "engine \<Rightarrow> engine" where
  "matrix_robust_enter_low_power s =
     matrix_robust_enable_wake_interrupt (matrix_robust_stop s)"

definition matrix_robust_exit_low_power :: "engine \<Rightarrow> engine" where
  "matrix_robust_exit_low_power s =
     matrix_robust_start (matrix_robust_disable_wake_interrupt s)"

section \<open>Predicates and scenarios of the properties\<close>

subsection \<open>Shape of the state arrays and the ghost-buffer invariant\<close>

text \<open>
  The three state arrays are \<^verbatim>\<open>[MATRIX_ROWS][MATRIX_COLS]\<close>, and the row cursor indexes
  them: outside these bounds the C code would read or write out of range.
\<close>

definition arrays_4x4 :: "engine \<Rightarrow> bool" where
  "arrays_4x4 s \<longleftrightarrow>
     length (key_state s) = MATRIX_ROWS
     \<and> list_all (\<lambda>row. length row = MATRIX_COLS) (key_state s)
     \<and> length (key_timestamp s) = MATRIX_ROWS
     \<and> list_all (\<lambda>row. length row = MATRIX_COLS) (key_timestamp s)
     \<and> length (pressed_keys s) = MATRIX_ROWS
     \<and> list_all (\<lambda>row. length row = MATRIX_COLS) (pressed_keys s)"

definition row_in_range :: "engine \<Rightarrow> bool" where
  "row_in_range s \<longleftrightarrow> unat (current_row s) < MATRIX_ROWS"

definition confirmed_pressed :: "engine \<Rightarrow> nat \<Rightarrow> nat \<Rightarrow> bool" where
  "confirmed_pressed s r c \<longleftrightarrow>
     get2 (key_state s) r c = KEY_PRESSED \<or> get2 (key_state s) r c = KEY_HELD"

definition ghost_buffer_inv :: "engine \<Rightarrow> bool" where
  "ghost_buffer_inv s \<longleftrightarrow>
     list_all (\<lambda>r. list_all (\<lambda>c.
         get2 (pressed_keys s) r c = (if confirmed_pressed s r c then 1 else 0))
       [0..<MATRIX_COLS]) [0..<MATRIX_ROWS]"

definition no_cell_pressed :: "engine \<Rightarrow> bool" where
  "no_cell_pressed s \<longleftrightarrow>
     list_all (\<lambda>r. list_all (\<lambda>c. \<not> confirmed_pressed s r c) [0..<MATRIX_COLS])
       [0..<MATRIX_ROWS]"

subsection \<open>The queues as lists\<close>

text \<open>
  The event ring buffer holds \<^verbatim>\<open>EVENT_QUEUE_SIZE\<close> slots and both indices stay below
  that size. The events it holds are the slots from the tail up to the head, oldest
  first.
\<close>

definition event_queue_ok :: "engine \<Rightarrow> bool" where
  "event_queue_ok s \<longleftrightarrow>
     length (event_queue s) = EVENT_QUEUE_SIZE
     \<and> unat (event_queue_head s) < EVENT_QUEUE_SIZE
     \<and> unat (event_queue_tail s) < EVENT_QUEUE_SIZE"

definition ring_contents :: "'a list \<Rightarrow> nat \<Rightarrow> nat \<Rightarrow> 'a list" where
  "ring_contents buf h t =
     map (\<lambda>i. buf ! ((t + i) mod length buf)) [0..<(h + length buf - t) mod length buf]"

definition queued_events :: "engine \<Rightarrow> KeyEvent list" where
  "queued_events s =
     ring_contents (event_queue s) (unat (event_queue_head s)) (unat (event_queue_tail s))"

fun enqueue_events :: "KeyEvent list \<Rightarrow> engine \<Rightarrow> engine" where
  "enqueue_events [] s = s"
| "enqueue_events (e # es) s = enqueue_events es (snd (enqueue_event e s))"

fun drain_events :: "nat \<Rightarrow> engine \<Rightarrow> KeyEvent list \<times> engine" where
  "drain_events 0 s = ([], s)"
| "drain_events (Suc n) s =
     (case matrix_robust_get_event s of
        (None, s') \<Rightarrow> ([], s')
      | (Some e, s') \<Rightarrow> (e # fst (drain_events n s'), snd (drain_events n s')))"

fun enqueue_errors :: "ErrorEvent list \<Rightarrow> engine \<Rightarrow> engine" where
  "enqueue_errors [] s = s"
| "enqueue_errors (e # es) s = enqueue_errors es (snd (enqueue_error e s))"

subsection \<open>Sequences of operations on the engine\<close>

text \<open>
  The operations that touch the statistics: a scan step, an enqueue into either queue,
  a drain of either queue.
\<close>

datatype engine_op =
    ScanStep scan_input
  | EnqueueEvent KeyEvent
  | EnqueueError ErrorEvent
  | DrainEvent
  | DrainError

fun apply_op :: "engine_op \<Rightarrow> engine \<Rightarrow> error + engine" where
  "apply_op (ScanStep inp) s = scan_timer_callback inp s"
| "apply_op (EnqueueEvent e) s = Inr (snd (enqueue_event e s))"
| "apply_op (EnqueueError e) s = Inr (snd (enqueue_error e s))"
| "apply_op DrainEvent s = Inr (snd (matrix_robust_get_event s))"
| "apply_op DrainError s = Inr (snd (matrix_robust_get_error s))"

fun run_ops :: "engine_op list \<Rightarrow> engine \<Rightarrow> error + engine" where
  "run_ops [] s = Inr s"
| "run_ops (op # ops) s =
     (case apply_op op s of Inl e \<Rightarrow> Inl e | Inr s' \<Rightarrow> run_ops ops s')"

text \<open>
  \<open>advanced k c c'\<close>: the 32-bit counter went from \<open>c\<close> to \<open>c'\<close> by at most \<open>k\<close>
  increments, counted modulo \<open>2 ^ 32\<close>.
\<close>

definition advanced :: "nat \<Rightarrow> uint32_t \<Rightarrow> uint32_t \<Rightarrow> bool" where
  "advanced k c c' \<longleftrightarrow> unat (c' - c) \<le> k"

definition counters_advanced :: "nat \<Rightarrow> ScanStatistics \<Rightarrow> ScanStatistics \<Rightarrow> bool" where
  "counters_advanced k st st' \<longleftrightarrow>
     advanced k (total_scans st) (total_scans st')
     \<and> advanced k (total_events st) (total_events st')
     \<and> advanced k (total_errors st) (total_errors st')
     \<and> advanced k (queue_overflows st) (queue_overflows st')"

subsection \<open>Concrete states and inputs\<close>

text \<open>
  The statics after \<^verbatim>\<open>matrix_robust_init\<close> with the pins and the scan interval of
  \<^verbatim>\<open>main_robust_example.c\<close>, called at program start.
\<close>

definition s_ready :: engine where
  "s_ready = power_on\<lparr>row_gpios := [2, 3, 4, 5], col_gpios := [6, 7, 8, 9],
     keymap := DEFAULT_KEYMAP\<rparr>"

text \<open>
  The timer tick at millisecond \<open>t\<close> of a 1 kHz scan that takes 5 microseconds, with the
  column levels \<open>level\<close>.
\<close>

definition tick :: "nat \<Rightarrow> (nat \<Rightarrow> bool) \<Rightarrow> scan_input" where
  "tick t level = \<lparr>scan_start_us = of_nat (1000 * t), now_ms = of_nat t,
     gpio_get = level, scan_end_us = of_nat (1000 * t) + 5\<rparr>"

text \<open>
  The ghost scenario: cells (2,0) and (2,1) of row 2 and cells (0,3) and (1,3) of column
  3 are pressed, cell (2,3) is idle with its contact first seen closed at time 0, and
  the cursor is on row 2. At millisecond 100 the scan of row 2 reads columns 0, 1 and 3
  low.
\<close>

definition s_ghost :: engine where
  "s_ghost = s_ready\<lparr>current_row := 2,
     key_state := [[0, 0, 0, 1], [0, 0, 0, 1], [1, 1, 0, 0], [0, 0, 0, 0]],
     pressed_keys := [[0, 0, 0, 1], [0, 0, 0, 1], [1, 1, 0, 0], [0, 0, 0, 0]]\<rparr>"

definition ghost_input :: scan_input where
  "ghost_input = tick 100 (\<lambda>c. c = 2)"

definition s_ghost_scanned :: engine where
  "s_ghost_scanned = s_ghost\<lparr>current_row := 3,
     key_state := [[0, 0, 0, 1], [0, 0, 0, 1], [2, 2, 0, 0], [0, 0, 0, 0]],
     key_timestamp := [[0, 0, 0, 0], [0, 0, 0, 0], [0, 0, 0, 100], [0, 0, 0, 0]],
     stats := \<lparr>total_scans = 1, total_events = 0, total_errors = 0,
       queue_overflows = 0, max_scan_time_us = 5, avg_scan_time_us = 5\<rparr>\<rparr>"

text \<open>
  The press scenario: from the initialised state, the contact of cell (0,0) is closed
  from millisecond 0 on. The timer ticks once per millisecond, tick \<open>t\<close> scans row
  \<open>t mod 4\<close>, so row 0 is scanned at milliseconds 0, 4, ..., 24 and reads column 0 low
  each time.
\<close>

definition hold_key_00 :: "nat \<Rightarrow> scan_input" where
  "hold_key_00 t = tick t (\<lambda>c. \<not> (t mod 4 = 0 \<and> c = 0))"

definition s_after_hold :: engine where
  "s_after_hold = s_ready\<lparr>current_row := 1,
     key_timestamp := [[24, 0, 0, 0], [0, 0, 0, 0], [0, 0, 0, 0], [0, 0, 0, 0]],
     stats := \<lparr>total_scans = 25, total_events = 0, total_errors = 0,
       queue_overflows = 0, max_scan_time_us = 5, avg_scan_time_us = 5\<rparr>\<rparr>"

text \<open>
  The press-and-release scenario: from the initialised state, the contact of cell (0,0)
  is closed from millisecond 0 to 24 and open from then on. Row 0 reads column 0 low at
  milliseconds 0, 4, ..., 24 and high at 28, 32, ..., 84, that is open for 56 ms.
\<close>

definition press_release_00 :: "nat \<Rightarrow> scan_input" where
  "press_release_00 t = tick t (\<lambda>c. \<not> (t < 25 \<and> t mod 4 = 0 \<and> c = 0))"

definition s_after_release :: engine where
  "s_after_release = s_ready\<lparr>current_row := 1,
     key_timestamp := [[24, 0, 0, 0], [0, 0, 0, 0], [0, 0, 0, 0], [0, 0, 0, 0]],
     stats := \<lparr>total_scans = 85, total_events = 0, total_errors = 0,
       queue_overflows = 0, max_scan_time_us = 5, avg_scan_time_us = 5\<rparr>\<rparr>"

text \<open>
  The long-hold scenario: the driver is initialised with a scan interval of 250 ms, so
  that tick \<open>i\<close> comes at millisecond \<open>250 * i\<close> and row 0 is scanned once per second.
  The contact of cell (0,0) is closed from millisecond 0 on; row 0 reads column 0 low at
  milliseconds 0, 1000, ..., 6000, past the stuck-key timeout of 5000 ms.
\<close>

definition s_ready_slow :: engine where
  "s_ready_slow = power_on\<lparr>row_gpios := [2, 3, 4, 5], col_gpios := [6, 7, 8, 9],
     keymap := DEFAULT_KEYMAP, scan_interval := 250000\<rparr>"

definition hold_key_00_slow :: "nat \<Rightarrow> scan_input" where
  "hold_key_00_slow i = \<lparr>scan_start_us = of_nat (250000 * i), now_ms = of_nat (250 * i),
     gpio_get = (\<lambda>c. \<not> (i mod 4 = 0 \<and> c = 0)), scan_end_us = of_nat (250000 * i) + 5\<rparr>"

definition s_after_hold_slow :: engine where
  "s_after_hold_slow = s_ready_slow\<lparr>current_row := 1,
     key_timestamp := [[6000, 0, 0, 0], [0, 0, 0, 0], [0, 0, 0, 0], [0, 0, 0, 0]],
     stats := \<lparr>total_scans = 25, total_events = 0, total_errors = 0,
       queue_overflows = 0, max_scan_time_us = 5, avg_scan_time_us = 5\<rparr>\<rparr>"



text \<open>A state with cell (0,0) \<open>KEY_PRESSED\<close>, its last transition at millisecond 0.\<close>

definition s_pressed :: engine where
  "s_pressed = s_ready\<lparr>
     key_state := [[1, 0, 0, 0], [0, 0, 0, 0], [0, 0, 0, 0], [0, 0, 0, 0]],
     pressed_keys := [[1, 0, 0, 0], [0, 0, 0, 0], [0, 0, 0, 0], [0, 0, 0, 0]]\<rparr>"

text \<open>Numbered events and errors to fill the queues with.\<close>

definition test_event :: "nat \<Rightarrow> KeyEvent" where
  "test_event i = \<lparr>ev_key = of_nat i, ev_state = KEY_PRESSED, ev_row = 0, ev_col = 0,
     ev_timestamp = of_nat i\<rparr>"

definition test_error :: "nat \<Rightarrow> ErrorEvent" where
  "test_error i = \<lparr>err_code = ERROR_STUCK_KEY, err_row = 0, err_col = 0,
     err_timestamp = of_nat i\<rparr>"

definition s_errors_full :: engine where
  "s_errors_full = enqueue_errors (map test_error [1..<8]) s_ready"

definition s_events_full :: engine where
  "s_events_full = enqueue_events (map test_event [1..<32]) s_ready"

text \<open>
  The error-callback scenario: an error callback is registered, cell (0,0) is
  \<open>KEY_PRESSED\<close> since millisecond 0, and row 0 is scanned at millisecond 6000 with
  column 0 low.
\<close>

definition s_pressed_cb :: engine where
  "s_pressed_cb = s_pressed\<lparr>error_callback := True\<rparr>"

definition stuck_error_00 :: ErrorEvent where
  "stuck_error_00 = \<lparr>err_code = ERROR_STUCK_KEY, err_row = 0, err_col = 0,
     err_timestamp = 6000\<rparr>"

definition s_pressed_cb_scanned :: engine where
  "s_pressed_cb_scanned = s_pressed_cb\<lparr>current_row := 1,
     key_state := [[2, 0, 0, 0], [0, 0, 0, 0], [0, 0, 0, 0], [0, 0, 0, 0]],
     error_queue := (replicate ERROR_QUEUE_SIZE zero_ErrorEvent)[0 := stuck_error_00],
     error_queue_head := 1,
     stats := \<lparr>total_scans = 1, total_events = 0, total_errors = 1,
       queue_overflows = 0, max_scan_time_us = 5, avg_scan_time_us = 5\<rparr>,
     error_callback_calls := [stuck_error_00]\<rparr>"

text \<open>The key-callback scenario: a key callback is registered on the initialised state.\<close>

definition s_key_cb :: engine where
  "s_key_cb = s_ready\<lparr>key_callback := True\<rparr>"

definition s_key_cb_scanned :: engine where
  "s_key_cb_scanned = s_key_cb\<lparr>current_row := 1,
     stats := \<lparr>total_scans = 1, total_events = 0, total_errors = 0,
       queue_overflows = 0, max_scan_time_us = 5, avg_scan_time_us = 5\<rparr>\<rparr>"

text \<open>
  The low-power scenario: scanning is started, the driver enters low power, then a
  falling edge on column pin 6 fires the interrupt callback.
\<close>

definition s_active :: engine where
  "s_active = matrix_robust_start s_ready"

definition s_low_power :: engine where
  "s_low_power = matrix_robust_enter_low_power s_active"

definition s_woken :: engine where
  "s_woken = gpio_interrupt_callback 6 4 s_low_power"

text \<open>
  \<open>errors_cycle n\<close>: \<open>n\<close> times, enqueue one error and drain it again. The sample run
  below has one operation of each kind.
\<close>

fun errors_cycle :: "nat \<Rightarrow> engine \<Rightarrow> engine" where
  "errors_cycle 0 s = s"
| "errors_cycle (Suc n) s =
     errors_cycle n (snd (matrix_robust_get_error (snd (enqueue_error (stuck_error_00) s))))"

definition ops_sample :: "engine_op list" where
  "ops_sample = [ScanStep (hold_key_00 0), EnqueueError stuck_error_00, DrainError,
     EnqueueEvent (test_event 1), DrainEvent]"

definition s_sampled :: engine where
  "s_sampled = s_ready\<lparr>current_row := 1,
     event_queue := (replicate EVENT_QUEUE_SIZE zero_KeyEvent)[0 := test_event 1],
     event_queue_head := 1, event_queue_tail := 1,
     error_queue := (replicate ERROR_QUEUE_SIZE zero_ErrorEvent)[0 := stuck_error_00],
     error_queue_head := 1, error_queue_tail := 1,
     stats := \<lparr>total_scans = 1, total_events = 0, total_errors = 1,
       queue_overflows = 0, max_scan_time_us = 5, avg_scan_time_us = 5\<rparr>\<rparr>"

section \<open>Proofs\<close>

subsection \<open>Array helpers\<close>

lemma set2_length: "length (set2 a r c v) = length a"
  by (simp add: set2_def)

lemma get2_set2:
  "r < length a \<Longrightarrow> c < length (a ! r) \<Longrightarrow>
   get2 (set2 a r c v) r' c' = (if r' = r \<and> c' = c then v else get2 a r' c')"
  by (auto simp: get2_def set2_def nth_list_update)

lemma set2_shape:
  assumes "list_all (\<lambda>row. length row = n) a"
  shows "list_all (\<lambda>row. length row = n) (set2 a r c v)"
proof (cases "r < length a")
  case True
  with assms show ?thesis
    by (auto simp: set2_def list_all_length nth_list_update)
next
  case False
  with assms show ?thesis
    by (simp add: set2_def list_update_beyond)
qed

lemma replicate_4: "replicate 4 x = [x, x, x, x]"
  by (simp add: eval_nat_numeral)

text \<open>Facts that evaluate a scan step on a concrete state.\<close>

lemmas scan_eval =
  scan_timer_callback_def scan_row_def count_scan_def next_row_def update_scan_time_def
  scan_col_def detect_stuck_key_def enqueue_error_def get2_def set2_def Let_def tick_def
  s_ready_def power_on_def zero_stats_def replicate_4 upt_rec

lemma ghost_buffer_inv_iff:
  "ghost_buffer_inv s \<longleftrightarrow>
     (\<forall>r<4. \<forall>c<4. get2 (pressed_keys s) r c = (if confirmed_pressed s r c then 1 else 0))"
  by (auto simp: ghost_buffer_inv_def list_all_iff)

subsection \<open>What one column step does\<close>

lemma enqueue_error_frame:
  "key_state (snd (enqueue_error e s)) = key_state s"
  "key_timestamp (snd (enqueue_error e s)) = key_timestamp s"
  "pressed_keys (snd (enqueue_error e s)) = pressed_keys s"
  "current_row (snd (enqueue_error e s)) = current_row s"
  "event_queue (snd (enqueue_error e s)) = event_queue s"
  "event_queue_head (snd (enqueue_error e s)) = event_queue_head s"
  "event_queue_tail (snd (enqueue_error e s)) = event_queue_tail s"
  "key_callback_calls (snd (enqueue_error e s)) = key_callback_calls s"
  "key_callback (snd (enqueue_error e s)) = key_callback s"
  by (simp_all add: enqueue_error_def Let_def)

text \<open>
  The column body with its unreachable branches removed. The second branch of either
  chain repeats the test of the first (\<^verbatim>\<open>current_state == KEY_IDLE\<close> at lines 166 and
  170, \<^verbatim>\<open>KEY_PRESSED || KEY_HELD\<close> at lines 222 and 225), so the press confirmation
  (with the ghost check) and the release confirmation never run.
\<close>

lemma scan_col_eq:
  "scan_col now level col s =
     (if \<not> level col then
        (if get2 (key_state s) (unat (current_row s)) col = KEY_IDLE then
           s\<lparr>key_timestamp := set2 (key_timestamp s) (unat (current_row s)) col now,
             key_state := set2 (key_state s) (unat (current_row s)) col KEY_IDLE\<rparr>
         else if get2 (key_state s) (unat (current_row s)) col = KEY_PRESSED then
           (if stuck_detection_enabled s \<and>
               now - get2 (key_timestamp s) (unat (current_row s))
                       (unat (of_nat col :: uint8_t))
                 > stuck_key_timeout s
            then snd (enqueue_error
                   \<lparr>err_code = ERROR_STUCK_KEY, err_row = current_row s,
                    err_col = of_nat col, err_timestamp = now\<rparr>
                   (s\<lparr>key_state := set2 (key_state s) (unat (current_row s)) col KEY_HELD\<rparr>))
            else s\<lparr>key_state := set2 (key_state s) (unat (current_row s)) col KEY_HELD\<rparr>)
         else s)
      else
        (if get2 (key_state s) (unat (current_row s)) col = KEY_PRESSED
            \<or> get2 (key_state s) (unat (current_row s)) col = KEY_HELD
         then s\<lparr>key_timestamp := set2 (key_timestamp s) (unat (current_row s)) col now\<rparr>
         else s))"
  by (simp add: scan_col_def detect_stuck_key_def Let_def)

lemma scan_col_frame:
  "pressed_keys (scan_col now level col s) = pressed_keys s"
  "current_row (scan_col now level col s) = current_row s"
  "event_queue (scan_col now level col s) = event_queue s"
  "event_queue_head (scan_col now level col s) = event_queue_head s"
  "event_queue_tail (scan_col now level col s) = event_queue_tail s"
  "key_callback_calls (scan_col now level col s) = key_callback_calls s"
  "key_callback (scan_col now level col s) = key_callback s"
  by (simp_all add: scan_col_eq enqueue_error_frame)

lemma scan_col_key_state:
  "key_state (scan_col now level col s) =
     (if \<not> level col \<and> get2 (key_state s) (unat (current_row s)) col = KEY_IDLE
      then set2 (key_state s) (unat (current_row s)) col KEY_IDLE
      else if \<not> level col \<and> get2 (key_state s) (unat (current_row s)) col = KEY_PRESSED
      then set2 (key_state s) (unat (current_row s)) col KEY_HELD
      else key_state s)"
  by (simp add: scan_col_eq enqueue_error_frame)

lemma scan_col_arrays_4x4: "arrays_4x4 s \<Longrightarrow> arrays_4x4 (scan_col now level col s)"
  by (simp add: arrays_4x4_def scan_col_eq enqueue_error_frame set2_shape set2_length)

text \<open>No column step moves a cell between idle and pressed-or-held.\<close>

lemma scan_col_confirmed:
  assumes "arrays_4x4 s" "row_in_range s" "col < 4"
  shows "confirmed_pressed (scan_col now level col s) r c = confirmed_pressed s r c"
proof -
  let ?r = "unat (current_row s)"
  have r: "?r < length (key_state s)" and c: "col < length (key_state s ! ?r)"
    using assms by (auto simp: arrays_4x4_def row_in_range_def list_all_length)
  show ?thesis
    by (auto simp: confirmed_pressed_def scan_col_key_state get2_set2 [OF r c])
qed

lemma scan_col_ghost_buffer_inv:
  "arrays_4x4 s \<Longrightarrow> row_in_range s \<Longrightarrow> col < 4 \<Longrightarrow> ghost_buffer_inv s \<Longrightarrow>
   ghost_buffer_inv (scan_col now level col s)"
  by (simp add: ghost_buffer_inv_iff scan_col_confirmed scan_col_frame)

subsection \<open>The ghost-buffer invariant\<close>

lemma scan_cols_inv:
  "set cols \<subseteq> {0..<4} \<Longrightarrow> arrays_4x4 s \<and> row_in_range s \<and> ghost_buffer_inv s \<Longrightarrow>
   arrays_4x4 (fold (scan_col now level) cols s)
   \<and> row_in_range (fold (scan_col now level) cols s)
   \<and> ghost_buffer_inv (fold (scan_col now level) cols s)"
proof (induction cols arbitrary: s)
  case Nil
  then show ?case by simp
next
  case (Cons col cols)
  from Cons.prems have "col < 4" by simp
  with Cons.prems have
    "arrays_4x4 (scan_col now level col s) \<and> row_in_range (scan_col now level col s)
     \<and> ghost_buffer_inv (scan_col now level col s)"
    by (simp add: scan_col_arrays_4x4 scan_col_ghost_buffer_inv row_in_range_def scan_col_frame)
  with Cons.prems Cons.IH show ?case by simp
qed

lemma count_scan_inv:
  "arrays_4x4 (count_scan s) = arrays_4x4 s"
  "row_in_range (count_scan s) = row_in_range s"
  "ghost_buffer_inv (count_scan s) = ghost_buffer_inv s"
  by (simp_all add: count_scan_def arrays_4x4_def row_in_range_def ghost_buffer_inv_def
      confirmed_pressed_def)

lemma next_row_inv:
  "arrays_4x4 (next_row s) = arrays_4x4 s"
  "row_in_range (next_row s)"
  "ghost_buffer_inv (next_row s) = ghost_buffer_inv s"
  by (simp_all add: next_row_def arrays_4x4_def row_in_range_def ghost_buffer_inv_def
      confirmed_pressed_def unat_of_nat)

lemma update_scan_time_inv:
  assumes "update_scan_time t s = Inr s'"
  shows "arrays_4x4 s' = arrays_4x4 s" "row_in_range s' = row_in_range s"
    "ghost_buffer_inv s' = ghost_buffer_inv s"
  using assms
  by (auto simp: update_scan_time_def Let_def arrays_4x4_def row_in_range_def
      ghost_buffer_inv_def confirmed_pressed_def split: if_splits)

lemma scan_timer_callback_inv:
  assumes "arrays_4x4 s" "row_in_range s" "ghost_buffer_inv s"
    and "scan_timer_callback inp s = Inr s'"
  shows "arrays_4x4 s' \<and> row_in_range s' \<and> ghost_buffer_inv s'"
proof -
  let ?s2 = "scan_row inp (count_scan s)"
  have "arrays_4x4 ?s2 \<and> row_in_range ?s2 \<and> ghost_buffer_inv ?s2"
    unfolding scan_row_def using assms(1-3)
    by (intro scan_cols_inv) (simp_all add: count_scan_inv)
  then have "arrays_4x4 (next_row ?s2) \<and> row_in_range (next_row ?s2)
      \<and> ghost_buffer_inv (next_row ?s2)"
    by (simp add: next_row_inv)
  moreover from assms(4) have
    "update_scan_time (scan_end_us inp - scan_start_us inp) (next_row ?s2) = Inr s'"
    by (simp add: scan_timer_callback_def)
  ultimately show ?thesis
    by (simp add: update_scan_time_inv)
qed

lemma matrix_robust_init_inv:
  assumes "matrix_robust_init row_pins col_pins us s0 = Inr s1"
  shows "arrays_4x4 s1 \<and> ghost_buffer_inv s1"
  using assms
  by (auto simp: matrix_robust_init_def Let_def arrays_4x4_def ghost_buffer_inv_iff
      confirmed_pressed_def get2_def list_all_length split: if_splits)

lemma fold_count:
  "fold (\<lambda>c n. if P c then n + 1 else n) cs (n0 :: uint8_t)
     = n0 + of_nat (length (filter P cs))"
  by (induction cs arbitrary: n0) simp_all

lemma keys_in_row_count:
  assumes "ghost_buffer_inv s" "unat row < 4"
  shows "unat (keys_in_row s row)
     = length (filter (confirmed_pressed s (unat row)) [0..<MATRIX_COLS])"
proof -
  have "filter (\<lambda>c. get2 (pressed_keys s) (unat row) c \<noteq> 0) [0..<4]
      = filter (confirmed_pressed s (unat row)) [0..<4]"
    using assms by (intro filter_cong) (auto simp: ghost_buffer_inv_iff)
  moreover have "length (filter (confirmed_pressed s (unat row)) [0..<4]) \<le> 4"
    using length_filter_le [of "confirmed_pressed s (unat row)" "[0..<4]"] by simp
  ultimately show ?thesis
    by (simp add: keys_in_row_def fold_count unat_of_nat)
qed

lemma keys_in_col_count:
  assumes "ghost_buffer_inv s" "unat col < 4"
  shows "unat (keys_in_col s col)
     = length (filter (\<lambda>r. confirmed_pressed s r (unat col)) [0..<MATRIX_ROWS])"
proof -
  have "filter (\<lambda>r. get2 (pressed_keys s) r (unat col) \<noteq> 0) [0..<4]
      = filter (\<lambda>r. confirmed_pressed s r (unat col)) [0..<4]"
    using assms by (intro filter_cong) (auto simp: ghost_buffer_inv_iff)
  moreover have "length (filter (\<lambda>r. confirmed_pressed s r (unat col)) [0..<4]) \<le> 4"
    using length_filter_le [of "\<lambda>r. confirmed_pressed s r (unat col)" "[0..<4]"] by simp
  ultimately show ?thesis
    by (simp add: keys_in_col_def fold_count unat_of_nat)
qed

lemma s_ready_init:
  "matrix_robust_init [2, 3, 4, 5] [6, 7, 8, 9] 1000 power_on = Inr s_ready"
  by (simp add: matrix_robust_init_def s_ready_def power_on_def)

lemma s_ghost_scan: "scan_timer_callback ghost_input s_ghost = Inr s_ghost_scanned"
  by (simp add: s_ghost_scanned_def s_ghost_def ghost_input_def scan_eval)

lemma s_ghost_inv: "arrays_4x4 s_ghost \<and> row_in_range s_ghost \<and> ghost_buffer_inv s_ghost"
  by (simp add: arrays_4x4_def row_in_range_def ghost_buffer_inv_def confirmed_pressed_def
      s_ghost_def s_ready_def power_on_def get2_def replicate_4 upt_rec)

text \<open>
  C10. After \<^verbatim>\<open>matrix_robust_init\<close> the ghost-detection buffer mirrors the key states:
  \<open>pressed_keys[r][c]\<close> is 1 exactly when \<open>key_state[r][c]\<close> is \<open>KEY_PRESSED\<close> or
  \<open>KEY_HELD\<close>, and 0 otherwise. Every scan step that returns keeps this (on the 4x4
  arrays, with the row cursor in range). Under the invariant the two counts of
  \<^verbatim>\<open>detect_ghost_key\<close> are the numbers of pressed-or-held cells of the row and of the
  column.
\<close>

theorem pressed_keys_mirror_key_state:
  "(matrix_robust_init row_pins col_pins us s0 = Inr s1
      \<longrightarrow> arrays_4x4 s1 \<and> ghost_buffer_inv s1)
   \<and> (arrays_4x4 s \<and> row_in_range s \<and> ghost_buffer_inv s
        \<and> scan_timer_callback inp s = Inr s'
      \<longrightarrow> arrays_4x4 s' \<and> row_in_range s' \<and> ghost_buffer_inv s')
   \<and> (ghost_buffer_inv s \<and> unat row < MATRIX_ROWS \<and> unat col < MATRIX_COLS
      \<longrightarrow> unat (keys_in_row s row)
            = length (filter (confirmed_pressed s (unat row)) [0..<MATRIX_COLS])
        \<and> unat (keys_in_col s col)
            = length (filter (\<lambda>r. confirmed_pressed s r (unat col)) [0..<MATRIX_ROWS]))"
  using matrix_robust_init_inv [of row_pins col_pins us s0 s1]
    scan_timer_callback_inv [of s inp s']
    keys_in_row_count [of s row] keys_in_col_count [of s col]
  by blast

theorem pressed_keys_mirror_key_state_witness:
  "matrix_robust_init [2, 3, 4, 5] [6, 7, 8, 9] 1000 power_on = Inr s_ready
   \<and> arrays_4x4 s_ready \<and> ghost_buffer_inv s_ready
   \<and> arrays_4x4 s_ghost \<and> row_in_range s_ghost \<and> ghost_buffer_inv s_ghost
   \<and> scan_timer_callback ghost_input s_ghost = Inr s_ghost_scanned
   \<and> arrays_4x4 s_ghost_scanned \<and> row_in_range s_ghost_scanned
   \<and> ghost_buffer_inv s_ghost_scanned
   \<and> unat (keys_in_row s_ghost 2) = 2 \<and> unat (keys_in_col s_ghost 3) = 2
   \<and> length (filter (confirmed_pressed s_ghost 2) [0..<MATRIX_COLS]) = 2
   \<and> length (filter (\<lambda>r. confirmed_pressed s_ghost r 3) [0..<MATRIX_ROWS]) = 2"
proof -
  have count_row: "length (filter (confirmed_pressed s_ghost 2) [0..<4]) = 2"
    by (simp add: confirmed_pressed_def s_ghost_def get2_def upt_rec)
  have count_col: "length (filter (\<lambda>r. confirmed_pressed s_ghost r 3) [0..<4]) = 2"
    by (simp add: confirmed_pressed_def s_ghost_def get2_def upt_rec)
  show ?thesis
    using pressed_keys_mirror_key_state
      [of "[2, 3, 4, 5]" "[6, 7, 8, 9]" 1000 power_on s_ready s_ghost ghost_input
        s_ghost_scanned 2 3]
      s_ready_init s_ghost_scan s_ghost_inv count_row count_col
    by simp
qed

subsection \<open>The debounce chains\<close>

text \<open>A scan step never delivers a key event, whatever the state and the input.\<close>

lemma scan_cols_no_key_event:
  "event_queue (fold (scan_col now level) cols s) = event_queue s
   \<and> event_queue_head (fold (scan_col now level) cols s) = event_queue_head s
   \<and> event_queue_tail (fold (scan_col now level) cols s) = event_queue_tail s
   \<and> key_callback_calls (fold (scan_col now level) cols s) = key_callback_calls s"
  by (induction cols arbitrary: s) (simp_all add: scan_col_frame)

lemma update_scan_time_frame:
  assumes "update_scan_time t s = Inr s'"
  shows "event_queue s' = event_queue s" "event_queue_head s' = event_queue_head s"
    "event_queue_tail s' = event_queue_tail s"
    "key_callback_calls s' = key_callback_calls s"
  using assms by (auto simp: update_scan_time_def Let_def split: if_splits)

lemma scan_no_key_event:
  assumes "scan_timer_callback inp s = Inr s'"
  shows "event_queue s' = event_queue s \<and> event_queue_head s' = event_queue_head s
    \<and> event_queue_tail s' = event_queue_tail s
    \<and> key_callback_calls s' = key_callback_calls s"
  using assms
  by (simp add: scan_timer_callback_def update_scan_time_frame [OF assms [unfolded scan_timer_callback_def]]
      next_row_def scan_row_def scan_cols_no_key_event count_scan_def)

text \<open>
  A scan step never moves a cell between idle and pressed-or-held: no press and no
  release is ever confirmed.
\<close>

lemma scan_cols_confirmed:
  "set cols \<subseteq> {0..<4} \<Longrightarrow> arrays_4x4 s \<Longrightarrow> row_in_range s \<Longrightarrow>
   confirmed_pressed (fold (scan_col now level) cols s) r c = confirmed_pressed s r c"
proof (induction cols arbitrary: s)
  case Nil
  show ?case by simp
next
  case (Cons col cols)
  from Cons.prems have col: "col < 4" and rest: "set cols \<subseteq> {0..<4}"
    by simp_all
  from Cons.prems have "arrays_4x4 (scan_col now level col s)"
    "row_in_range (scan_col now level col s)"
    by (simp_all add: scan_col_arrays_4x4 row_in_range_def scan_col_frame)
  from Cons.IH [OF rest this] scan_col_confirmed [OF Cons.prems(2,3) col]
  show ?case by simp
qed

lemma scan_keeps_confirmed_pressed:
  assumes "arrays_4x4 s" "row_in_range s" "scan_timer_callback inp s = Inr s'"
  shows "confirmed_pressed s' r c = confirmed_pressed s r c"
proof -
  let ?s2 = "scan_row inp (count_scan s)"
  have "confirmed_pressed ?s2 r c = confirmed_pressed (count_scan s) r c"
    unfolding scan_row_def using assms(1,2)
    by (intro scan_cols_confirmed) (simp_all add: count_scan_inv)
  moreover have "key_state (count_scan s) = key_state s"
    "key_state (next_row ?s2) = key_state ?s2"
    by (simp_all add: count_scan_def next_row_def)
  moreover from assms(3) have "key_state s' = key_state (next_row ?s2)"
    by (auto simp: scan_timer_callback_def update_scan_time_def Let_def split: if_splits)
  ultimately show ?thesis
    by (simp add: confirmed_pressed_def)
qed

text \<open>
  C1 (the code differs). The contact of cell (0,0) stays closed for 24 ms, longer than
  \<open>debounce_press_ms = 20\<close>, over seven successive scans of row 0. The cell is still
  \<open>KEY_IDLE\<close> afterwards, the event queue is empty, no callback was called and
  \<open>total_events\<close> is 0: each scan of the cell takes the first branch (line 166) and
  restarts the timestamp, which ends at 24.
\<close>

theorem press_held_24ms_not_confirmed:
  "run_scans (map hold_key_00 [0..<25]) s_ready = Inr s_after_hold
   \<and> debounce_time_press s_ready = DEBOUNCE_PRESS_MS
   \<and> get2 (key_state s_after_hold) 0 0 = KEY_IDLE
   \<and> get2 (key_timestamp s_after_hold) 0 0 = 24
   \<and> event_queue_head s_after_hold = event_queue_tail s_after_hold
   \<and> key_callback_calls s_after_hold = []
   \<and> total_events (stats s_after_hold) = 0"
  by (simp add: s_after_hold_def hold_key_00_def scan_eval)

lemma no_cell_pressed_iff:
  "no_cell_pressed s \<longleftrightarrow> (\<forall>r<4. \<forall>c<4. \<not> confirmed_pressed s r c)"
  by (auto simp: no_cell_pressed_def list_all_iff)

lemma scan_cols_shape:
  "arrays_4x4 s \<Longrightarrow> row_in_range s \<Longrightarrow>
   arrays_4x4 (fold (scan_col now level) cols s)
   \<and> row_in_range (fold (scan_col now level) cols s)"
proof (induction cols arbitrary: s)
  case Nil
  then show ?case by simp
next
  case (Cons col cols)
  from Cons.prems have "arrays_4x4 (scan_col now level col s)"
    "row_in_range (scan_col now level col s)"
    by (simp_all add: scan_col_arrays_4x4 row_in_range_def scan_col_frame)
  from Cons.IH [OF this] show ?case by simp
qed

lemma scan_shape:
  assumes "arrays_4x4 s" "row_in_range s" "scan_timer_callback inp s = Inr s'"
  shows "arrays_4x4 s' \<and> row_in_range s'"
proof -
  let ?s2 = "scan_row inp (count_scan s)"
  have "arrays_4x4 ?s2"
    unfolding scan_row_def using assms(1,2) scan_cols_shape [of "count_scan s"]
    by (simp add: count_scan_inv)
  then have "arrays_4x4 (next_row ?s2) \<and> row_in_range (next_row ?s2)"
    by (simp add: next_row_inv)
  moreover from assms(3) have
    "update_scan_time (scan_end_us inp - scan_start_us inp) (next_row ?s2) = Inr s'"
    by (simp add: scan_timer_callback_def)
  ultimately show ?thesis
    by (simp add: update_scan_time_inv)
qed

lemma run_scans_confirmed:
  "arrays_4x4 s \<Longrightarrow> row_in_range s \<Longrightarrow> run_scans inps s = Inr s' \<Longrightarrow>
   confirmed_pressed s' r c = confirmed_pressed s r c"
proof (induction inps arbitrary: s)
  case Nil
  then show ?case by simp
next
  case (Cons inp inps)
  from Cons.prems(3) obtain s1 where s1: "scan_timer_callback inp s = Inr s1"
    "run_scans inps s1 = Inr s'"
    by (auto split: sum.splits)
  from scan_shape [OF Cons.prems(1,2) s1(1)] Cons.IH [of s1] s1(2)
  have "confirmed_pressed s' r c = confirmed_pressed s1 r c" by simp
  with scan_keeps_confirmed_pressed [OF Cons.prems(1,2) s1(1)] show ?case by simp
qed

lemma run_scans_no_key_event:
  "run_scans inps s = Inr s' \<Longrightarrow>
   event_queue s' = event_queue s \<and> event_queue_head s' = event_queue_head s
   \<and> event_queue_tail s' = event_queue_tail s
   \<and> key_callback_calls s' = key_callback_calls s"
proof (induction inps arbitrary: s)
  case Nil
  then show ?case by simp
next
  case (Cons inp inps)
  from Cons.prems obtain s1 where s1: "scan_timer_callback inp s = Inr s1"
    "run_scans inps s1 = Inr s'"
    by (auto split: sum.splits)
  from scan_no_key_event [OF s1(1)] Cons.IH [OF s1(2)] show ?case by simp
qed

lemma run_scans_total_events:
  "run_scans inps s = Inr s' \<Longrightarrow> total_events (stats s') = total_events (stats s)"
proof (induction inps arbitrary: s)
  case Nil
  then show ?case by simp
next
  case (Cons inp inps)
  from Cons.prems obtain s1 where s1: "scan_timer_callback inp s = Inr s1"
    "run_scans inps s1 = Inr s'"
    by (auto split: sum.splits)
  have "total_events (stats (fold (scan_col now level) cols x)) = total_events (stats x)"
    for now level cols x
    by (induction cols arbitrary: x) (simp_all add: scan_col_eq enqueue_error_def Let_def)
  with s1(1) have "total_events (stats s1) = total_events (stats s)"
    by (auto simp: scan_timer_callback_def update_scan_time_def scan_row_def next_row_def
        count_scan_def Let_def split: if_splits)
  with Cons.IH [OF s1(2)] show ?case by simp
qed

lemma held_cell_not_checked:
  "get2 (key_state s) (unat (current_row s)) col = KEY_HELD \<Longrightarrow> \<not> level col \<Longrightarrow>
   scan_col now level col s = s"
  by (simp add: scan_col_eq)

lemma scan_col_not_pressed_silent:
  assumes "get2 (key_state s) (unat (current_row s)) col \<noteq> KEY_PRESSED"
  shows "error_queue (scan_col now level col s) = error_queue s"
    "error_queue_head (scan_col now level col s) = error_queue_head s"
    "error_queue_tail (scan_col now level col s) = error_queue_tail s"
    "error_callback_calls (scan_col now level col s) = error_callback_calls s"
    "stats (scan_col now level col s) = stats s"
  using assms by (simp_all add: scan_col_eq)

lemma scan_cols_idle_silent:
  "set cols \<subseteq> {0..<4} \<Longrightarrow> arrays_4x4 s \<Longrightarrow> row_in_range s \<Longrightarrow> no_cell_pressed s \<Longrightarrow>
   error_queue (fold (scan_col now level) cols s) = error_queue s
   \<and> error_queue_head (fold (scan_col now level) cols s) = error_queue_head s
   \<and> error_queue_tail (fold (scan_col now level) cols s) = error_queue_tail s
   \<and> error_callback_calls (fold (scan_col now level) cols s) = error_callback_calls s
   \<and> stats (fold (scan_col now level) cols s) = stats s
   \<and> no_cell_pressed (fold (scan_col now level) cols s)"
proof (induction cols arbitrary: s)
  case Nil
  then show ?case by simp
next
  case (Cons col cols)
  let ?s1 = "scan_col now level col s"
  from Cons.prems have col: "col < 4" and rest: "set cols \<subseteq> {0..<4}"
    by simp_all
  from Cons.prems(3,4) col have "\<not> confirmed_pressed s (unat (current_row s)) col"
    by (simp add: no_cell_pressed_iff row_in_range_def)
  then have np: "get2 (key_state s) (unat (current_row s)) col \<noteq> KEY_PRESSED"
    by (simp add: confirmed_pressed_def)
  have shape: "arrays_4x4 ?s1" "row_in_range ?s1"
    using Cons.prems by (simp_all add: scan_col_arrays_4x4 row_in_range_def scan_col_frame)
  have "no_cell_pressed ?s1"
    using Cons.prems(4) scan_col_confirmed [OF Cons.prems(2,3) col]
    by (simp add: no_cell_pressed_iff)
  from Cons.IH [OF rest shape this] scan_col_not_pressed_silent [OF np, of now level]
  show ?case by simp
qed

lemma scan_idle_silent:
  assumes "arrays_4x4 s" "row_in_range s" "no_cell_pressed s"
    and "scan_timer_callback inp s = Inr s'"
  shows "error_queue s' = error_queue s \<and> error_queue_head s' = error_queue_head s
    \<and> error_queue_tail s' = error_queue_tail s
    \<and> error_callback_calls s' = error_callback_calls s
    \<and> total_errors (stats s') = total_errors (stats s)
    \<and> no_cell_pressed s'"
proof -
  let ?s1 = "count_scan s"
  let ?s2 = "scan_row inp ?s1"
  have "no_cell_pressed ?s1"
    using assms(3) by (simp add: no_cell_pressed_def confirmed_pressed_def count_scan_def)
  with assms(1,2) have s1: "arrays_4x4 ?s1" "row_in_range ?s1" "no_cell_pressed ?s1"
    by (simp_all add: count_scan_inv)
  have s2: "error_queue ?s2 = error_queue ?s1 \<and> error_queue_head ?s2 = error_queue_head ?s1
      \<and> error_queue_tail ?s2 = error_queue_tail ?s1
      \<and> error_callback_calls ?s2 = error_callback_calls ?s1
      \<and> stats ?s2 = stats ?s1 \<and> no_cell_pressed ?s2"
    unfolding scan_row_def using s1 by (intro scan_cols_idle_silent) simp_all
  from assms(4) have fin:
    "update_scan_time (scan_end_us inp - scan_start_us inp) (next_row ?s2) = Inr s'"
    by (simp add: scan_timer_callback_def)
  then have "error_queue s' = error_queue (next_row ?s2)"
    "error_queue_head s' = error_queue_head (next_row ?s2)"
    "error_queue_tail s' = error_queue_tail (next_row ?s2)"
    "error_callback_calls s' = error_callback_calls (next_row ?s2)"
    "total_errors (stats s') = total_errors (stats (next_row ?s2))"
    "key_state s' = key_state (next_row ?s2)"
    by (auto simp: update_scan_time_def Let_def split: if_splits)
  with s2 show ?thesis
    by (simp add: next_row_def count_scan_def no_cell_pressed_def confirmed_pressed_def)
qed

lemma run_scans_idle_silent:
  "arrays_4x4 s \<Longrightarrow> row_in_range s \<Longrightarrow> no_cell_pressed s \<Longrightarrow> run_scans inps s = Inr s' \<Longrightarrow>
   error_queue s' = error_queue s \<and> error_queue_head s' = error_queue_head s
   \<and> error_queue_tail s' = error_queue_tail s
   \<and> error_callback_calls s' = error_callback_calls s
   \<and> total_errors (stats s') = total_errors (stats s)
   \<and> no_cell_pressed s'"
proof (induction inps arbitrary: s)
  case Nil
  then show ?case by simp
next
  case (Cons inp inps)
  from Cons.prems(4) obtain s1 where s1: "scan_timer_callback inp s = Inr s1"
    "run_scans inps s1 = Inr s'"
    by (auto split: sum.splits)
  from scan_idle_silent [OF Cons.prems(1-3) s1(1)] scan_shape [OF Cons.prems(1,2) s1(1)]
    Cons.IH [of s1] s1(2)
  show ?case by simp
qed


text \<open>
  C2 (the code differs). No run of scan steps, from any state, queues or delivers a key
  event or counts one, and on the 4x4 arrays no cell changes between idle and
  pressed-or-held: a \<open>KEY_RELEASED\<close> event is never produced and no cell ever returns
  to \<open>KEY_IDLE\<close>. In the witness the contact of cell (0,0) is closed for 24 ms and then
  open for 56 ms, from the initialised state: a physical press and release without an
  event.
\<close>

theorem scans_never_release:
  assumes "run_scans inps s = Inr s'"
  shows "event_queue s' = event_queue s \<and> event_queue_head s' = event_queue_head s
    \<and> event_queue_tail s' = event_queue_tail s
    \<and> key_callback_calls s' = key_callback_calls s
    \<and> total_events (stats s') = total_events (stats s)
    \<and> (arrays_4x4 s \<and> row_in_range s
        \<longrightarrow> confirmed_pressed s' r c = confirmed_pressed s r c)"
  using run_scans_no_key_event [OF assms] run_scans_total_events [OF assms]
    run_scans_confirmed [OF _ _ assms, of r c]
  by blast

theorem scans_never_release_witness:
  "run_scans (map press_release_00 [0..<85]) s_ready = Inr s_after_release
   \<and> arrays_4x4 s_ready \<and> row_in_range s_ready
   \<and> debounce_time_press s_ready = DEBOUNCE_PRESS_MS
   \<and> debounce_time_release s_ready = DEBOUNCE_RELEASE_MS
   \<and> event_queue s_after_release = event_queue s_ready
   \<and> event_queue_head s_after_release = event_queue_head s_ready
   \<and> event_queue_tail s_after_release = event_queue_tail s_ready
   \<and> event_queue_head s_after_release = event_queue_tail s_after_release
   \<and> key_callback_calls s_after_release = key_callback_calls s_ready
   \<and> key_callback_calls s_after_release = []
   \<and> total_events (stats s_after_release) = total_events (stats s_ready)
   \<and> total_events (stats s_after_release) = 0
   \<and> confirmed_pressed s_after_release 0 0 = confirmed_pressed s_ready 0 0
   \<and> get2 (key_state s_after_release) 0 0 = KEY_IDLE"
proof -
  have run: "run_scans (map press_release_00 [0..<85]) s_ready = Inr s_after_release"
    by (simp add: s_after_release_def press_release_00_def scan_eval)
  have shape: "arrays_4x4 s_ready" "row_in_range s_ready"
    by (simp_all add: arrays_4x4_def row_in_range_def s_ready_def power_on_def replicate_4)
  have facts: "debounce_time_press s_ready = 20" "debounce_time_release s_ready = 50"
    "event_queue_head s_after_release = event_queue_tail s_after_release"
    "key_callback_calls s_after_release = []" "total_events (stats s_after_release) = 0"
    "get2 (key_state s_after_release) 0 0 = 0"
    by (simp_all add: s_after_release_def s_ready_def power_on_def get2_def replicate_4)
  show ?thesis
    using scans_never_release [OF run, of 0 0] run shape facts
    by blast
qed

text \<open>
  C3 (the code differs). From a state on the 4x4 arrays without a pressed or held cell,
  such as the initialised state, no run of scan steps stores an error, calls the error
  callback or counts an error, and no cell becomes pressed or held: a stuck-key error
  is never produced. In the witness stuck detection is enabled with the 5000 ms
  timeout and the contact of cell (0,0) is closed for 6000 ms.
\<close>

theorem scans_from_idle_never_report:
  assumes "arrays_4x4 s" "row_in_range s" "no_cell_pressed s"
    and "run_scans inps s = Inr s'"
  shows "error_queue s' = error_queue s \<and> error_queue_head s' = error_queue_head s
    \<and> error_queue_tail s' = error_queue_tail s
    \<and> error_callback_calls s' = error_callback_calls s
    \<and> total_errors (stats s') = total_errors (stats s)
    \<and> no_cell_pressed s'"
  using run_scans_idle_silent [OF assms] .

theorem scans_from_idle_never_report_witness:
  "matrix_robust_init [2, 3, 4, 5] [6, 7, 8, 9] 250000 power_on = Inr s_ready_slow
   \<and> arrays_4x4 s_ready_slow \<and> row_in_range s_ready_slow \<and> no_cell_pressed s_ready_slow
   \<and> stuck_detection_enabled s_ready_slow
   \<and> stuck_key_timeout s_ready_slow = STUCK_KEY_TIMEOUT_MS
   \<and> run_scans (map hold_key_00_slow [0..<25]) s_ready_slow = Inr s_after_hold_slow
   \<and> get2 (key_timestamp s_after_hold_slow) 0 0 = 6000
   \<and> error_queue s_after_hold_slow = error_queue s_ready_slow
   \<and> error_queue_head s_after_hold_slow = error_queue_head s_ready_slow
   \<and> error_queue_tail s_after_hold_slow = error_queue_tail s_ready_slow
   \<and> error_queue_head s_after_hold_slow = error_queue_tail s_after_hold_slow
   \<and> error_callback_calls s_after_hold_slow = error_callback_calls s_ready_slow
   \<and> error_callback_calls s_after_hold_slow = []
   \<and> total_errors (stats s_after_hold_slow) = total_errors (stats s_ready_slow)
   \<and> total_errors (stats s_after_hold_slow) = 0
   \<and> no_cell_pressed s_after_hold_slow"
proof -
  have init: "matrix_robust_init [2, 3, 4, 5] [6, 7, 8, 9] 250000 power_on = Inr s_ready_slow"
    by (simp add: matrix_robust_init_def s_ready_slow_def power_on_def)
  have run: "run_scans (map hold_key_00_slow [0..<25]) s_ready_slow = Inr s_after_hold_slow"
    by (simp add: s_after_hold_slow_def s_ready_slow_def hold_key_00_slow_def scan_eval)
  have shape: "arrays_4x4 s_ready_slow" "row_in_range s_ready_slow"
    "no_cell_pressed s_ready_slow"
    by (simp_all add: arrays_4x4_def row_in_range_def no_cell_pressed_def
        confirmed_pressed_def get2_def s_ready_slow_def power_on_def replicate_4 upt_rec)
  have facts: "stuck_detection_enabled s_ready_slow" "stuck_key_timeout s_ready_slow = 5000"
    "get2 (key_timestamp s_after_hold_slow) 0 0 = 6000"
    "error_queue_head s_after_hold_slow = error_queue_tail s_after_hold_slow"
    "error_callback_calls s_after_hold_slow = []"
    "total_errors (stats s_after_hold_slow) = 0"
    by (simp_all add: s_after_hold_slow_def s_ready_slow_def power_on_def get2_def)
  show ?thesis
    using scans_from_idle_never_report [OF shape run] init run shape facts
    by blast
qed



subsection \<open>The ring buffers\<close>

lemma mod_if_small: "(a::nat) < 2 * n \<Longrightarrow> a mod n = (if a < n then a else a - n)"
  by (simp add: mod_if le_mod_geq)

lemma ring_length: "length (ring_contents buf h t) = (h + length buf - t) mod length buf"
  by (simp add: ring_contents_def)

lemma ring_empty: "h < length buf \<Longrightarrow> ring_contents buf h h = []"
  by (simp add: ring_contents_def)

lemma ring_full_iff:
  assumes "h < length buf" "t < length buf"
  shows "Suc h mod length buf = t \<longleftrightarrow> (h + length buf - t) mod length buf = length buf - 1"
  using assms by (auto simp: mod_if_small split: if_splits)

lemma ring_enqueue:
  assumes "h < length buf" "t < length buf" "Suc h mod length buf \<noteq> t"
  shows "ring_contents (buf[h := e]) (Suc h mod length buf) t = ring_contents buf h t @ [e]"
proof -
  let ?N = "length buf"
  let ?n = "(h + ?N - t) mod ?N"
  have len: "(Suc h mod ?N + ?N - t) mod ?N = Suc ?n"
    using assms by (auto simp: mod_if_small split: if_splits)
  have idx: "h \<noteq> (t + i) mod ?N" if "i < ?n" for i
    using assms that by (auto simp: mod_if_small split: if_splits)
  have last: "(t + ?n) mod ?N = h"
    using assms by (auto simp: mod_if_small split: if_splits)
  have "map (\<lambda>i. buf[h := e] ! ((t + i) mod ?N)) [0..<?n]
      = map (\<lambda>i. buf ! ((t + i) mod ?N)) [0..<?n]"
    using idx by (intro map_cong) auto
  moreover have "buf[h := e] ! ((t + ?n) mod ?N) = e"
    using assms(1) by (simp add: last)
  ultimately show ?thesis
    by (simp add: ring_contents_def len)
qed

lemma ring_dequeue:
  assumes "h < length buf" "t < length buf" "h \<noteq> t"
  shows "ring_contents buf h t = buf ! t # ring_contents buf h (Suc t mod length buf)"
proof -
  let ?N = "length buf"
  let ?n = "(h + ?N - (Suc t mod ?N)) mod ?N"
  have len: "(h + ?N - t) mod ?N = Suc ?n"
    using assms by (auto simp: mod_if_small split: if_splits)
  have idx: "(Suc t mod ?N + i) mod ?N = (t + Suc i) mod ?N" for i
    using mod_add_left_eq [of "Suc t" ?N i] by simp
  have "[0..<Suc ?n] = 0 # map Suc [0..<?n]"
    by (simp add: upt_conv_Cons map_Suc_upt del: upt_Suc)
  then have "ring_contents buf h t
      = buf ! (t mod ?N) # map (\<lambda>i. buf ! ((t + Suc i) mod ?N)) [0..<?n]"
    unfolding ring_contents_def len by (simp add: comp_def del: upt_Suc)
  then show ?thesis
    using assms(2) by (simp add: ring_contents_def idx)
qed

lemma unat_next_32: "unat ((h + 1) mod 32 :: uint32_t) = Suc (unat h) mod 32"
proof -
  have "unat ((h + 1) mod 32) = ((unat h + 1) mod 2 ^ 32) mod 32"
    by (simp add: unat_mod unat_word_ariths)
  also have "\<dots> = (unat h + 1) mod 32"
    by (rule mod_mod_cancel) simp
  finally show ?thesis by simp
qed

lemma enqueue_event_room:
  assumes "event_queue_ok s" "length (queued_events s) < 31"
  shows "fst (enqueue_event e s)
    \<and> event_queue_ok (snd (enqueue_event e s))
    \<and> queued_events (snd (enqueue_event e s)) = queued_events s @ [e]
    \<and> stats (snd (enqueue_event e s)) = stats s"
proof -
  let ?h = "unat (event_queue_head s)" and ?t = "unat (event_queue_tail s)"
  from assms have ok: "?h < length (event_queue s)" "?t < length (event_queue s)"
    "length (event_queue s) = 32"
    by (simp_all add: event_queue_ok_def)
  from assms(2) ok have "Suc ?h mod 32 \<noteq> ?t"
    using ring_full_iff [of ?h "event_queue s" ?t] by (simp add: queued_events_def ring_length)
  then have neq: "(event_queue_head s + 1) mod 32 \<noteq> event_queue_tail s"
    using unat_next_32 [of "event_queue_head s"] by auto
  have "ring_contents ((event_queue s)[?h := e]) (Suc ?h mod 32) ?t
      = ring_contents (event_queue s) ?h ?t @ [e]"
    using ring_enqueue [of ?h "event_queue s" ?t e] ok \<open>Suc ?h mod 32 \<noteq> ?t\<close> by simp
  then show ?thesis
    using neq ok by (simp add: enqueue_event_def queued_events_def event_queue_ok_def unat_next_32)
qed

lemma enqueue_event_full:
  assumes "event_queue_ok s" "length (queued_events s) = 31"
  shows "enqueue_event e s
    = (False, s\<lparr>stats := (stats s)\<lparr>queue_overflows := queue_overflows (stats s) + 1\<rparr>\<rparr>)"
proof -
  let ?h = "unat (event_queue_head s)" and ?t = "unat (event_queue_tail s)"
  from assms have ok: "?h < length (event_queue s)" "?t < length (event_queue s)"
    "length (event_queue s) = 32"
    by (simp_all add: event_queue_ok_def)
  from assms(2) ok have "Suc ?h mod 32 = ?t"
    using ring_full_iff [of ?h "event_queue s" ?t] by (simp add: queued_events_def ring_length)
  then have "(event_queue_head s + 1) mod 32 = event_queue_tail s"
    using unat_next_32 [of "event_queue_head s"] by (simp add: word_unat_eq_iff)
  then show ?thesis
    by (simp add: enqueue_event_def)
qed

lemma queued_events_length: "event_queue_ok s \<Longrightarrow> length (queued_events s) \<le> 31"
  using mod_less_divisor [of 32 "unat (event_queue_head s) + 32 - unat (event_queue_tail s)"]
  by (simp add: queued_events_def ring_length event_queue_ok_def)

lemma get_event_empty:
  assumes "event_queue_ok s" "queued_events s = []"
  shows "matrix_robust_get_event s = (None, s)"
proof -
  let ?h = "unat (event_queue_head s)" and ?t = "unat (event_queue_tail s)"
  from assms have "(?h + 32 - ?t) mod 32 = 0" "?h < 32" "?t < 32"
    by (simp_all add: queued_events_def ring_contents_def event_queue_ok_def)
  then have "?h = ?t"
    by (auto simp: mod_if_small split: if_splits)
  then show ?thesis
    by (simp add: matrix_robust_get_event_def word_unat_eq_iff)
qed

lemma get_event_first:
  assumes "event_queue_ok s" "queued_events s = e # es"
  shows "fst (matrix_robust_get_event s) = Some e
    \<and> event_queue_ok (snd (matrix_robust_get_event s))
    \<and> queued_events (snd (matrix_robust_get_event s)) = es
    \<and> stats (snd (matrix_robust_get_event s)) = stats s"
proof -
  let ?h = "unat (event_queue_head s)" and ?t = "unat (event_queue_tail s)"
  from assms have ok: "?h < length (event_queue s)" "?t < length (event_queue s)"
    "length (event_queue s) = 32"
    by (simp_all add: event_queue_ok_def)
  have neq: "?h \<noteq> ?t"
    using assms(2) ok by (auto simp: queued_events_def ring_contents_def)
  then have neq': "event_queue_head s \<noteq> event_queue_tail s"
    by auto
  from ring_dequeue [OF ok(1,2) neq] assms(2)
  have "event_queue s ! ?t = e" "ring_contents (event_queue s) ?h (Suc ?t mod 32) = es"
    by (simp_all add: queued_events_def ok)
  then show ?thesis
    using neq' ok
    by (simp add: matrix_robust_get_event_def queued_events_def event_queue_ok_def unat_next_32)
qed

lemma enqueue_events_fifo:
  "event_queue_ok s \<Longrightarrow> length (queued_events s) + length es \<le> 31 \<Longrightarrow>
   event_queue_ok (enqueue_events es s)
   \<and> queued_events (enqueue_events es s) = queued_events s @ es
   \<and> stats (enqueue_events es s) = stats s"
proof (induction es arbitrary: s)
  case Nil
  then show ?case by simp
next
  case (Cons e es)
  from Cons.prems have "length (queued_events s) < 31" by simp
  from enqueue_event_room [OF Cons.prems(1) this, of e] Cons.prems(2)
  have "event_queue_ok (snd (enqueue_event e s))"
    "length (queued_events (snd (enqueue_event e s))) + length es \<le> 31"
    "queued_events (snd (enqueue_event e s)) = queued_events s @ [e]"
    "stats (snd (enqueue_event e s)) = stats s"
    by simp_all
  with Cons.IH [of "snd (enqueue_event e s)"] show ?case by simp
qed

lemma drain_events_all:
  "event_queue_ok s \<Longrightarrow> length (queued_events s) \<le> n \<Longrightarrow>
   fst (drain_events n s) = queued_events s"
proof (induction n arbitrary: s)
  case 0
  then show ?case by simp
next
  case (Suc n)
  show ?case
  proof (cases "queued_events s")
    case Nil
    with Suc.prems show ?thesis by (simp add: get_event_empty)
  next
    case (Cons e es)
    from get_event_first [OF Suc.prems(1) Cons]
    obtain s' where s': "matrix_robust_get_event s = (Some e, s')" "event_queue_ok s'"
      "queued_events s' = es"
      by (cases "matrix_robust_get_event s") auto
    with Suc.prems Cons have "fst (drain_events n s') = es"
      using Suc.IH [of s'] by simp
    with s' Cons show ?thesis by simp
  qed
qed

lemma enqueue_events_append:
  "enqueue_events (es @ [e]) s = snd (enqueue_event e (enqueue_events es s))"
  by (induction es arbitrary: s) simp_all

lemma queue_ignores_stats:
  "event_queue_ok (s\<lparr>stats := x\<rparr>) = event_queue_ok s"
  "queued_events (s\<lparr>stats := x\<rparr>) = queued_events s"
  by (simp_all add: event_queue_ok_def queued_events_def)

lemma s_ready_queue: "event_queue_ok s_ready \<and> queued_events s_ready = []"
  by (simp add: event_queue_ok_def queued_events_def ring_contents_def s_ready_def power_on_def)

lemma enqueue_error_full:
  "(error_queue_head s + 1) mod 8 = error_queue_tail s \<Longrightarrow> enqueue_error e s = (False, s)"
  by (simp add: enqueue_error_def)

text \<open>
  C5, as the claim states it, fails: of 32 events enqueued into the empty queue only
  the first 31 are drained, and the 32nd is the one that overflows.
\<close>

theorem event_queue_holds_31_counterexample:
  "fst (drain_events 32 (enqueue_events (map test_event [1..<33]) s_ready))
     = map test_event [1..<32]
   \<and> fst (drain_events 32 (enqueue_events (map test_event [1..<33]) s_ready))
     \<noteq> map test_event [1..<33]
   \<and> queue_overflows (stats (enqueue_events (map test_event [1..<33]) s_ready)) = 1"
proof -
  let ?s31 = "enqueue_events (map test_event [1..<32]) s_ready"
  have s31: "event_queue_ok ?s31 \<and> queued_events ?s31 = map test_event [1..<32]
      \<and> stats ?s31 = stats s_ready"
    using enqueue_events_fifo [of s_ready "map test_event [1..<32]"] s_ready_queue by simp
  have "[1..<33] = [1..<32] @ [32::nat]"
    by (simp add: upt_rec)
  then have split: "enqueue_events (map test_event [1..<33]) s_ready
      = snd (enqueue_event (test_event 32) ?s31)"
    by (simp add: enqueue_events_append)
  have full: "enqueue_event (test_event 32) ?s31
      = (False, ?s31\<lparr>stats := (stats ?s31)\<lparr>queue_overflows := queue_overflows (stats ?s31) + 1\<rparr>\<rparr>)"
    using s31 by (intro enqueue_event_full) simp_all
  have drained: "fst (drain_events 32 (enqueue_events (map test_event [1..<33]) s_ready))
      = map test_event [1..<32]"
    unfolding split full using s31
    by (subst drain_events_all) (simp_all add: queue_ignores_stats)
  have "length (map test_event [1..<32]) \<noteq> length (map test_event [1..<33])"
    by simp
  then have "map test_event [1..<32] \<noteq> map test_event [1..<33]"
    by metis
  moreover have "queue_overflows (stats (enqueue_events (map test_event [1..<33]) s_ready)) = 1"
    unfolding split full using s31 by (simp add: s_ready_def power_on_def zero_stats_def)
  ultimately show ?thesis
    using drained by simp
qed

text \<open>
  C5, amended. The ring buffer of 32 slots holds 31 events. From an empty event queue,
  enqueueing up to 31 events and then draining yields them in FIFO order. With 31
  events queued, one more enqueue before any drain returns false, changes nothing but
  \<open>queue_overflows\<close>, which grows by exactly 1, and the first event drained is still
  the first one enqueued.
\<close>

theorem event_queue_fifo_capacity_31:
  assumes "event_queue_ok s" "event_queue_head s = event_queue_tail s" "length es \<le> 31"
  shows "fst (drain_events 32 (enqueue_events es s)) = es
    \<and> (length es = 31 \<longrightarrow>
        enqueue_event e (enqueue_events es s)
          = (False, (enqueue_events es s)\<lparr>stats :=
               (stats s)\<lparr>queue_overflows := queue_overflows (stats s) + 1\<rparr>\<rparr>)
        \<and> fst (matrix_robust_get_event (snd (enqueue_event e (enqueue_events es s))))
          = Some (hd es)
        \<and> fst (drain_events 32 (snd (enqueue_event e (enqueue_events es s)))) = es)"
proof -
  let ?s1 = "enqueue_events es s"
  from assms(1,2) have empty: "queued_events s = []"
    by (simp add: queued_events_def event_queue_ok_def ring_empty)
  with assms have s1: "event_queue_ok ?s1" "queued_events ?s1 = es" "stats ?s1 = stats s"
    using enqueue_events_fifo [of s es] by simp_all
  with assms(3) have fifo: "fst (drain_events 32 ?s1) = es"
    using drain_events_all [of ?s1 32] by simp
  have over: "enqueue_event e ?s1
        = (False, ?s1\<lparr>stats := (stats s)\<lparr>queue_overflows := queue_overflows (stats s) + 1\<rparr>\<rparr>)
      \<and> fst (matrix_robust_get_event (snd (enqueue_event e ?s1))) = Some (hd es)
      \<and> fst (drain_events 32 (snd (enqueue_event e ?s1))) = es"
    if len: "length es = 31"
  proof -
    let ?s2 = "?s1\<lparr>stats := (stats s)\<lparr>queue_overflows := queue_overflows (stats s) + 1\<rparr>\<rparr>"
    have full: "enqueue_event e ?s1 = (False, ?s2)"
      using enqueue_event_full [of ?s1 e] s1 len by simp
    have s2: "event_queue_ok ?s2" "queued_events ?s2 = es"
      using s1 by (simp_all add: queue_ignores_stats)
    from len obtain x xs where es: "es = x # xs"
      by (cases es) auto
    have "fst (matrix_robust_get_event ?s2) = Some (hd es)"
      using get_event_first [of ?s2 x xs] s2 es by simp
    moreover have "fst (drain_events 32 ?s2) = es"
      using drain_events_all [of ?s2 32] s2 len by simp
    ultimately show ?thesis
      using full by simp
  qed
  from fifo over show ?thesis by blast
qed

theorem event_queue_fifo_capacity_31_witness:
  "event_queue_ok s_ready \<and> event_queue_head s_ready = event_queue_tail s_ready
   \<and> length (map test_event [1..<32]) = 31
   \<and> fst (drain_events 32 s_events_full) = map test_event [1..<32]
   \<and> enqueue_event (test_event 32) s_events_full
       = (False, s_events_full\<lparr>stats :=
            (stats s_ready)\<lparr>queue_overflows := queue_overflows (stats s_ready) + 1\<rparr>\<rparr>)
   \<and> fst (matrix_robust_get_event (snd (enqueue_event (test_event 32) s_events_full)))
       = Some (hd (map test_event [1..<32]))
   \<and> fst (drain_events 32 (snd (enqueue_event (test_event 32) s_events_full)))
       = map test_event [1..<32]"
proof -
  have ok: "event_queue_ok s_ready" "event_queue_head s_ready = event_queue_tail s_ready"
    by (simp_all add: event_queue_ok_def s_ready_def power_on_def)
  have len: "length (map test_event [1..<32]) \<le> 31" "length (map test_event [1..<32]) = 31"
    by simp_all
  show ?thesis
    unfolding s_events_full_def
    using event_queue_fifo_capacity_31 [OF ok len(1), of "test_event 32"] ok len(2)
    by blast
qed

text \<open>
  C6 (the code differs). With seven errors in the error queue of eight slots the queue
  is full. One more \<^verbatim>\<open>enqueue_error\<close> returns false and leaves the whole state as it
  was, buffer and indices included as the claim says, but also every counter of the
  statistics: no overflow is counted. The event queue, when full, counts the overflow
  in \<open>queue_overflows\<close>.
\<close>

theorem error_queue_overflow_not_counted:
  "error_queue_head s_errors_full = 7 \<and> error_queue_tail s_errors_full = 0
   \<and> enqueue_error (test_error 8) s_errors_full = (False, s_errors_full)
   \<and> stats (snd (enqueue_error (test_error 8) s_errors_full))
       = zero_stats\<lparr>total_errors := 7\<rparr>
   \<and> stats s_events_full = zero_stats
   \<and> stats (snd (enqueue_event (test_event 32) s_events_full))
       = zero_stats\<lparr>queue_overflows := 1\<rparr>"
proof -
  have e: "error_queue_head s_errors_full = 7" "error_queue_tail s_errors_full = 0"
    "stats s_errors_full = zero_stats\<lparr>total_errors := 7\<rparr>"
    by (simp_all add: s_errors_full_def enqueue_error_def test_error_def Let_def
        s_ready_def power_on_def zero_stats_def upt_rec)
  then have full: "enqueue_error (test_error 8) s_errors_full = (False, s_errors_full)"
    by (intro enqueue_error_full) simp
  have s31: "event_queue_ok s_events_full
      \<and> queued_events s_events_full = map test_event [1..<32]
      \<and> stats s_events_full = stats s_ready"
    unfolding s_events_full_def
    using enqueue_events_fifo [of s_ready "map test_event [1..<32]"] s_ready_queue by simp
  then have "enqueue_event (test_event 32) s_events_full
      = (False, s_events_full\<lparr>stats :=
          (stats s_events_full)\<lparr>queue_overflows := queue_overflows (stats s_events_full) + 1\<rparr>\<rparr>)"
    by (intro enqueue_event_full) simp_all
  with s31 e full show ?thesis
    by (simp add: s_ready_def power_on_def zero_stats_def)
qed

subsection \<open>Callbacks\<close>

text \<open>
  C7, as the claim states it, fails for error events: with an error callback
  registered, the stuck-key error of this scan step is stored in the error queue (the
  head moves from 0 to 1) and is also passed to the callback. The same holds for
  \<^verbatim>\<open>enqueue_error\<close> called on the initialised state with the callback registered.
\<close>

theorem error_callback_does_not_bypass_queue:
  "error_callback s_pressed_cb
   \<and> error_queue_head s_pressed_cb = 0 \<and> error_queue_tail s_pressed_cb = 0
   \<and> scan_timer_callback (tick 6000 (\<lambda>c. c \<noteq> 0)) s_pressed_cb = Inr s_pressed_cb_scanned
   \<and> error_queue_head s_pressed_cb_scanned = 1
   \<and> error_queue s_pressed_cb_scanned ! 0 = stuck_error_00
   \<and> fst (matrix_robust_get_error s_pressed_cb_scanned) = Some stuck_error_00
   \<and> error_callback_calls s_pressed_cb_scanned = [stuck_error_00]
   \<and> error_queue_head
        (snd (enqueue_error stuck_error_00 (matrix_robust_set_error_callback True s_ready))) = 1
   \<and> error_callback_calls
        (snd (enqueue_error stuck_error_00 (matrix_robust_set_error_callback True s_ready)))
       = [stuck_error_00]"
  by (simp add: s_pressed_cb_scanned_def s_pressed_cb_def s_pressed_def stuck_error_00_def
      matrix_robust_get_error_def matrix_robust_set_error_callback_def scan_eval)

text \<open>
  C7, amended. A registered key callback replaces the event queue: the delivery of a
  key event calls the callback and leaves the event queue as it is, and no scan step
  adds to the event queue. A registered error callback does not replace the error
  queue: an error that finds room is stored in the queue, counted, and then also passed
  to the callback; an error that finds the queue full is dropped without a call.
\<close>

theorem callback_delivery:
  "(key_callback s \<longrightarrow>
      deliver_key_event ev s = s\<lparr>key_callback_calls := key_callback_calls s @ [ev]\<rparr>)
   \<and> (key_callback s \<and> scan_timer_callback inp s = Inr s' \<longrightarrow>
      event_queue s' = event_queue s \<and> event_queue_head s' = event_queue_head s
      \<and> event_queue_tail s' = event_queue_tail s)
   \<and> (error_callback s \<and> (error_queue_head s + 1) mod 8 \<noteq> error_queue_tail s \<longrightarrow>
      enqueue_error err s =
        (True, s\<lparr>error_queue := (error_queue s)[unat (error_queue_head s) := err],
                 error_queue_head := (error_queue_head s + 1) mod 8,
                 stats := (stats s)\<lparr>total_errors := total_errors (stats s) + 1\<rparr>,
                 error_callback_calls := error_callback_calls s @ [err]\<rparr>))
   \<and> ((error_queue_head s + 1) mod 8 = error_queue_tail s \<longrightarrow>
      enqueue_error err s = (False, s))"
  using scan_no_key_event [of inp s s']
  by (simp add: deliver_key_event_def enqueue_error_def)

theorem callback_delivery_witness:
  "key_callback s_key_cb
   \<and> deliver_key_event (test_event 1) s_key_cb
       = s_key_cb\<lparr>key_callback_calls := key_callback_calls s_key_cb @ [test_event 1]\<rparr>
   \<and> scan_timer_callback (hold_key_00 0) s_key_cb = Inr s_key_cb_scanned
   \<and> event_queue s_key_cb_scanned = event_queue s_key_cb
   \<and> event_queue_head s_key_cb_scanned = event_queue_head s_key_cb
   \<and> event_queue_tail s_key_cb_scanned = event_queue_tail s_key_cb
   \<and> error_callback s_pressed_cb
   \<and> (error_queue_head s_pressed_cb + 1) mod 8 \<noteq> error_queue_tail s_pressed_cb
   \<and> enqueue_error stuck_error_00 s_pressed_cb
       = (True, s_pressed_cb\<lparr>
            error_queue := (error_queue s_pressed_cb)
              [unat (error_queue_head s_pressed_cb) := stuck_error_00],
            error_queue_head := (error_queue_head s_pressed_cb + 1) mod 8,
            stats := (stats s_pressed_cb)
              \<lparr>total_errors := total_errors (stats s_pressed_cb) + 1\<rparr>,
            error_callback_calls := error_callback_calls s_pressed_cb @ [stuck_error_00]\<rparr>)
   \<and> (error_queue_head s_errors_full + 1) mod 8 = error_queue_tail s_errors_full
   \<and> enqueue_error stuck_error_00 s_errors_full = (False, s_errors_full)"
proof -
  have k: "key_callback s_key_cb"
    by (simp add: s_key_cb_def)
  have scan: "scan_timer_callback (hold_key_00 0) s_key_cb = Inr s_key_cb_scanned"
    by (simp add: s_key_cb_scanned_def s_key_cb_def hold_key_00_def scan_eval)
  have e: "error_callback s_pressed_cb"
    "(error_queue_head s_pressed_cb + 1) mod 8 \<noteq> error_queue_tail s_pressed_cb"
    by (simp_all add: s_pressed_cb_def s_pressed_def s_ready_def power_on_def)
  have "error_queue_head s_errors_full = 7" "error_queue_tail s_errors_full = 0"
    by (simp_all add: s_errors_full_def enqueue_error_def test_error_def Let_def
        s_ready_def power_on_def zero_stats_def upt_rec)
  then have f: "(error_queue_head s_errors_full + 1) mod 8 = error_queue_tail s_errors_full"
    by simp
  show ?thesis
    using callback_delivery
      [of s_key_cb "test_event 1" "hold_key_00 0" s_key_cb_scanned stuck_error_00]
      callback_delivery
      [of s_pressed_cb "test_event 1" "hold_key_00 0" s_key_cb_scanned stuck_error_00]
      callback_delivery
      [of s_errors_full "test_event 1" "hold_key_00 0" s_key_cb_scanned stuck_error_00]
      k scan e f
    by blast
qed

subsection \<open>Low power\<close>

text \<open>
  C8 (the code differs). After \<^verbatim>\<open>matrix_robust_enter_low_power\<close> scanning is stopped
  and the falling-edge interrupt of the four column pins is enabled. The interrupt
  callback then restarts the timer and sets \<open>scanning_active\<close>, without a call of
  \<^verbatim>\<open>matrix_robust_exit_low_power\<close>, but it leaves the interrupt of all four column
  pins enabled: the wake source is not disarmed. \<^verbatim>\<open>matrix_robust_exit_low_power\<close>
  disables all four.
\<close>

theorem wake_edge_leaves_wake_source_armed:
  "scanning_active s_active \<and> timer_armed s_active
   \<and> \<not> scanning_active s_low_power \<and> \<not> timer_armed s_low_power
   \<and> map (irq_fall_enabled s_low_power) (col_gpios s_low_power) = [True, True, True, True]
   \<and> scanning_active s_woken \<and> timer_armed s_woken
   \<and> map (irq_fall_enabled s_woken) (col_gpios s_woken) = [True, True, True, True]
   \<and> map (irq_fall_enabled (matrix_robust_exit_low_power s_low_power))
        (col_gpios (matrix_robust_exit_low_power s_low_power)) = [False, False, False, False]
   \<and> scanning_active (matrix_robust_exit_low_power s_low_power)"
  by (simp add: s_woken_def s_low_power_def s_active_def gpio_interrupt_callback_def
      matrix_robust_enter_low_power_def matrix_robust_exit_low_power_def
      matrix_robust_enable_wake_interrupt_def matrix_robust_disable_wake_interrupt_def
      matrix_robust_start_def matrix_robust_stop_def s_ready_def power_on_def upt_rec)

subsection \<open>Statistics\<close>

lemma advanced_refl: "advanced k c c"
  by (simp add: advanced_def)

lemma advanced_one: "advanced (Suc k) c (c + 1)"
  by (simp add: advanced_def)

lemma advanced_mono: "advanced j c c' \<Longrightarrow> j \<le> k \<Longrightarrow> advanced k c c'"
  by (simp add: advanced_def)

lemma advanced_trans:
  assumes "advanced j c c'" "advanced k c' c''"
  shows "advanced (j + k) c c''"
proof -
  have "c'' - c = (c' - c) + (c'' - c')"
    by simp
  then have "unat (c'' - c) \<le> unat (c' - c) + unat (c'' - c')"
    by (metis unat_word_ariths(1) mod_less_eq_dividend)
  with assms show ?thesis
    by (simp add: advanced_def)
qed

lemma advanced_le:
  assumes "advanced k c c'" "unat c + k < 2 ^ 32"
  shows "c \<le> c'"
proof -
  from assms have "unat c + unat (c' - c) < 2 ^ LENGTH(32)"
    by (simp add: advanced_def)
  then have "unat (c + (c' - c)) = unat c + unat (c' - c)"
    by (rule unat_add_lem [THEN iffD1])
  then have "unat c \<le> unat c'"
    by simp
  then show ?thesis
    by (simp add: word_le_nat_alt)
qed

lemma counters_advanced_refl: "counters_advanced k st st"
  by (simp add: counters_advanced_def advanced_refl)

lemma counters_advanced_mono:
  "counters_advanced j st st' \<Longrightarrow> j \<le> k \<Longrightarrow> counters_advanced k st st'"
  by (auto simp: counters_advanced_def intro: advanced_mono)

lemma counters_advanced_trans:
  "counters_advanced j st st' \<Longrightarrow> counters_advanced k st' st'' \<Longrightarrow>
   counters_advanced (j + k) st st''"
  by (auto simp: counters_advanced_def intro: advanced_trans)

lemma enqueue_error_counters:
  "counters_advanced 1 (stats s) (stats (snd (enqueue_error e s)))"
  using advanced_one [of 0]
  by (simp add: enqueue_error_def Let_def counters_advanced_def advanced_refl)

lemma enqueue_event_counters:
  "counters_advanced 1 (stats s) (stats (snd (enqueue_event e s)))"
  using advanced_one [of 0]
  by (simp add: enqueue_event_def Let_def counters_advanced_def advanced_refl)

lemma scan_col_counters:
  "counters_advanced 1 (stats s) (stats (scan_col now level col s))"
proof -
  have "counters_advanced 1 (stats s) (stats (snd (enqueue_error e (s\<lparr>key_state := ks\<rparr>))))"
    for e ks
    using enqueue_error_counters [of "s\<lparr>key_state := ks\<rparr>" e] by simp
  then show ?thesis
    by (simp add: scan_col_eq counters_advanced_refl)
qed

lemma scan_cols_counters:
  "counters_advanced (length cols) (stats s) (stats (fold (scan_col now level) cols s))"
proof (induction cols arbitrary: s)
  case Nil
  show ?case by (simp add: counters_advanced_refl)
next
  case (Cons col cols)
  from counters_advanced_trans [OF scan_col_counters Cons.IH]
  show ?case by simp
qed

lemma update_scan_time_counters:
  assumes "update_scan_time t s = Inr s'"
  shows "total_scans (stats s') = total_scans (stats s)"
    "total_events (stats s') = total_events (stats s)"
    "total_errors (stats s') = total_errors (stats s)"
    "queue_overflows (stats s') = queue_overflows (stats s)"
  using assms by (auto simp: update_scan_time_def Let_def split: if_splits)

lemma scan_timer_callback_counters:
  assumes "scan_timer_callback inp s = Inr s'"
  shows "counters_advanced 5 (stats s) (stats s')"
proof -
  let ?s1 = "count_scan s"
  let ?s2 = "scan_row inp ?s1"
  have "counters_advanced 1 (stats s) (stats ?s1)"
    using advanced_one [of 0] by (simp add: count_scan_def counters_advanced_def advanced_refl)
  moreover have "counters_advanced 4 (stats ?s1) (stats ?s2)"
    using scan_cols_counters [of "[0..<4]" ?s1] by (simp add: scan_row_def)
  ultimately have "counters_advanced 5 (stats s) (stats (next_row ?s2))"
    using counters_advanced_trans [of 1 "stats s" "stats ?s1" 4 "stats ?s2"]
    by (simp add: next_row_def)
  moreover from assms have
    "update_scan_time (scan_end_us inp - scan_start_us inp) (next_row ?s2) = Inr s'"
    by (simp add: scan_timer_callback_def)
  ultimately show ?thesis
    by (simp add: counters_advanced_def update_scan_time_counters)
qed

lemma apply_op_counters:
  assumes "apply_op op s = Inr s'"
  shows "counters_advanced 5 (stats s) (stats s')"
proof (cases op)
  case (ScanStep inp)
  with assms show ?thesis by (simp add: scan_timer_callback_counters)
next
  case (EnqueueEvent e)
  with assms counters_advanced_mono [OF enqueue_event_counters, of 5 s e]
  show ?thesis by auto
next
  case (EnqueueError e)
  with assms counters_advanced_mono [OF enqueue_error_counters, of 5 s e]
  show ?thesis by auto
next
  case DrainEvent
  with assms show ?thesis
    by (auto simp: matrix_robust_get_event_def counters_advanced_refl)
next
  case DrainError
  with assms show ?thesis
    by (auto simp: matrix_robust_get_error_def counters_advanced_refl)
qed

lemma run_ops_counters:
  "run_ops ops s = Inr s' \<Longrightarrow> counters_advanced (5 * length ops) (stats s) (stats s')"
proof (induction ops arbitrary: s)
  case Nil
  then show ?case by (simp add: counters_advanced_refl)
next
  case (Cons op ops)
  then obtain s1 where s1: "apply_op op s = Inr s1" "run_ops ops s1 = Inr s'"
    by (auto split: sum.splits)
  from counters_advanced_trans [OF apply_op_counters [OF s1(1)] Cons.IH [OF s1(2)]]
  show ?case by simp
qed

lemma unat_next_8: "unat ((h + 1) mod 8 :: uint32_t) = Suc (unat h) mod 8"
proof -
  have "unat ((h + 1) mod 8) = ((unat h + 1) mod 2 ^ 32) mod 8"
    by (simp add: unat_mod unat_word_ariths)
  also have "\<dots> = (unat h + 1) mod 8"
    by (rule mod_mod_cancel) simp
  finally show ?thesis by simp
qed

lemma enqueue_error_empty:
  assumes "error_queue_head s = error_queue_tail s" "unat (error_queue_head s) < 8"
  shows "error_queue_head (snd (enqueue_error e s)) = (error_queue_head s + 1) mod 8"
    "error_queue_tail (snd (enqueue_error e s)) = error_queue_head s"
    "total_errors (stats (snd (enqueue_error e s))) = total_errors (stats s) + 1"
    "error_queue_head (snd (enqueue_error e s)) \<noteq> error_queue_tail (snd (enqueue_error e s))"
proof -
  let ?h = "error_queue_head s"
  from assms(2) have "Suc (unat ?h) mod 8 \<noteq> unat ?h"
    by (auto simp: mod_if_small split: if_splits)
  then have room: "(?h + 1) mod 8 \<noteq> ?h"
    using unat_next_8 [of ?h] by auto
  with assms(1) show "error_queue_head (snd (enqueue_error e s)) = (?h + 1) mod 8"
    "error_queue_tail (snd (enqueue_error e s)) = ?h"
    "total_errors (stats (snd (enqueue_error e s))) = total_errors (stats s) + 1"
    "error_queue_head (snd (enqueue_error e s)) \<noteq> error_queue_tail (snd (enqueue_error e s))"
    by (simp_all add: enqueue_error_def Let_def)
qed

lemma errors_cycle_total:
  "error_queue_head s = error_queue_tail s \<Longrightarrow> unat (error_queue_head s) < 8 \<Longrightarrow>
   total_errors (stats (errors_cycle n s)) = total_errors (stats s) + of_nat n
   \<and> error_queue_head (errors_cycle n s) = error_queue_tail (errors_cycle n s)
   \<and> unat (error_queue_head (errors_cycle n s)) < 8"
proof (induction n arbitrary: s)
  case 0
  then show ?case by simp
next
  case (Suc n)
  let ?h = "error_queue_head s"
  let ?s1 = "snd (enqueue_error stuck_error_00 s)"
  let ?s2 = "snd (matrix_robust_get_error ?s1)"
  note s1 = enqueue_error_empty [OF Suc.prems, of stuck_error_00]
  then have s2: "error_queue_head ?s2 = (?h + 1) mod 8"
    "error_queue_tail ?s2 = (?h + 1) mod 8"
    "total_errors (stats ?s2) = total_errors (stats s) + 1"
    by (simp_all add: matrix_robust_get_error_def)
  have "unat (error_queue_head ?s2) < 8"
    unfolding s2 unat_next_8 by simp
  with Suc.IH [of ?s2] s2 show ?case
    by auto
qed

lemma errors_cycle_run:
  "run_ops (concat (replicate n [EnqueueError (stuck_error_00), DrainError])) s
     = Inr (errors_cycle n s)"
  by (induction n arbitrary: s) simp_all

text \<open>
  C9, as the claim states it, fails: the counters are \<^verbatim>\<open>uint32_t\<close>. After 4294967295
  rounds of enqueueing an error and draining it, \<open>total_errors\<close> is \<open>2 ^ 32 - 1\<close>, and
  the next enqueue takes it to 0.
\<close>

theorem total_errors_wraps_counterexample:
  "run_ops (concat (replicate 4294967295 [EnqueueError (stuck_error_00), DrainError])) s_ready
     = Inr (errors_cycle 4294967295 s_ready)
   \<and> total_errors (stats (errors_cycle 4294967295 s_ready)) = 4294967295
   \<and> apply_op (EnqueueError (stuck_error_00)) (errors_cycle 4294967295 s_ready)
     = Inr (snd (enqueue_error (stuck_error_00) (errors_cycle 4294967295 s_ready)))
   \<and> total_errors (stats (snd (enqueue_error (stuck_error_00) (errors_cycle 4294967295 s_ready))))
     = 0
   \<and> \<not> total_errors (stats (errors_cycle 4294967295 s_ready))
       \<le> total_errors (stats (snd (enqueue_error (stuck_error_00)
            (errors_cycle 4294967295 s_ready))))"
proof -
  have r: "error_queue_head s_ready = error_queue_tail s_ready"
    "unat (error_queue_head s_ready) < 8" "total_errors (stats s_ready) = 0"
    by (simp_all add: s_ready_def power_on_def zero_stats_def)
  let ?s = "errors_cycle 4294967295 s_ready"
  have c: "total_errors (stats ?s) = 4294967295" "error_queue_head ?s = error_queue_tail ?s"
    "unat (error_queue_head ?s) < 8"
    using errors_cycle_total [OF r(1,2), of 4294967295] r(3) by auto
  have "total_errors (stats (snd (enqueue_error stuck_error_00 ?s))) = 0"
    using enqueue_error_empty(3) [OF c(2,3), of stuck_error_00] c(1) by simp
  with c(1) show ?thesis
    by (simp add: errors_cycle_run)
qed

text \<open>
  C9, amended. Across any sequence of scan steps, enqueues and drains that returns,
  each of the four counters moves forward by at most 5 per operation, modulo \<open>2 ^ 32\<close>;
  it is therefore non-decreasing as long as it cannot wrap around, that is whenever its
  value at the start plus 5 times the number of operations is below \<open>2 ^ 32\<close>.
  \<^verbatim>\<open>matrix_robust_reset_statistics\<close> sets every field of the statistics to zero.
\<close>

theorem counters_non_decreasing_until_wrap:
  assumes "run_ops ops s = Inr s'"
  shows "counters_advanced (5 * length ops) (stats s) (stats s')
    \<and> (unat (total_scans (stats s)) + 5 * length ops < 2 ^ 32
        \<longrightarrow> total_scans (stats s) \<le> total_scans (stats s'))
    \<and> (unat (total_events (stats s)) + 5 * length ops < 2 ^ 32
        \<longrightarrow> total_events (stats s) \<le> total_events (stats s'))
    \<and> (unat (total_errors (stats s)) + 5 * length ops < 2 ^ 32
        \<longrightarrow> total_errors (stats s) \<le> total_errors (stats s'))
    \<and> (unat (queue_overflows (stats s)) + 5 * length ops < 2 ^ 32
        \<longrightarrow> queue_overflows (stats s) \<le> queue_overflows (stats s'))
    \<and> stats (matrix_robust_reset_statistics s')
        = \<lparr>total_scans = 0, total_events = 0, total_errors = 0, queue_overflows = 0,
           max_scan_time_us = 0, avg_scan_time_us = 0\<rparr>"
proof -
  from run_ops_counters [OF assms]
  have adv: "advanced (5 * length ops) (total_scans (stats s)) (total_scans (stats s'))"
    "advanced (5 * length ops) (total_events (stats s)) (total_events (stats s'))"
    "advanced (5 * length ops) (total_errors (stats s)) (total_errors (stats s'))"
    "advanced (5 * length ops) (queue_overflows (stats s)) (queue_overflows (stats s'))"
    by (simp_all add: counters_advanced_def)
  have "stats (matrix_robust_reset_statistics s')
      = \<lparr>total_scans = 0, total_events = 0, total_errors = 0, queue_overflows = 0,
         max_scan_time_us = 0, avg_scan_time_us = 0\<rparr>"
    by (simp add: matrix_robust_reset_statistics_def zero_stats_def)
  with run_ops_counters [OF assms] advanced_le [OF adv(1)] advanced_le [OF adv(2)]
    advanced_le [OF adv(3)] advanced_le [OF adv(4)]
  show ?thesis by blast
qed

theorem counters_non_decreasing_until_wrap_witness:
  "run_ops ops_sample s_ready = Inr s_sampled
   \<and> counters_advanced (5 * length ops_sample) (stats s_ready) (stats s_sampled)
   \<and> unat (total_scans (stats s_ready)) + 5 * length ops_sample < 2 ^ 32
   \<and> total_scans (stats s_ready) \<le> total_scans (stats s_sampled)
   \<and> unat (total_events (stats s_ready)) + 5 * length ops_sample < 2 ^ 32
   \<and> total_events (stats s_ready) \<le> total_events (stats s_sampled)
   \<and> unat (total_errors (stats s_ready)) + 5 * length ops_sample < 2 ^ 32
   \<and> total_errors (stats s_ready) \<le> total_errors (stats s_sampled)
   \<and> unat (queue_overflows (stats s_ready)) + 5 * length ops_sample < 2 ^ 32
   \<and> queue_overflows (stats s_ready) \<le> queue_overflows (stats s_sampled)
   \<and> stats (matrix_robust_reset_statistics s_sampled)
       = \<lparr>total_scans = 0, total_events = 0, total_errors = 0, queue_overflows = 0,
          max_scan_time_us = 0, avg_scan_time_us = 0\<rparr>"
proof -
  have run: "run_ops ops_sample s_ready = Inr s_sampled"
    by (simp add: ops_sample_def s_sampled_def hold_key_00_def stuck_error_00_def
        test_event_def enqueue_event_def matrix_robust_get_event_def
        matrix_robust_get_error_def scan_eval)
  have bounds: "unat (total_scans (stats s_ready)) + 5 * length ops_sample < 2 ^ 32"
    "unat (total_events (stats s_ready)) + 5 * length ops_sample < 2 ^ 32"
    "unat (total_errors (stats s_ready)) + 5 * length ops_sample < 2 ^ 32"
    "unat (queue_overflows (stats s_ready)) + 5 * length ops_sample < 2 ^ 32"
    by (simp_all add: ops_sample_def s_ready_def power_on_def zero_stats_def)
  show ?thesis
    using counters_non_decreasing_until_wrap [OF run] run bounds
    by blast
qed

end
